theory Spec2Isabelle
  imports Complex_Main "HOL-Library.AList" "HOL-Library.Log_Nat"
begin

section \<open>JavaScript values used by the crawler\<close>

text \<open>
  A JavaScript string is modelled as a \<open>string\<close>: one \<open>char\<close> per UTF-16 code unit, for the
  code units below 256 (the Latin-1 range), so that \<open>length\<close> is the source's \<open>.length\<close>.

  A thrown value is either an \<open>Error\<close> instance, with its \<open>name\<close> and \<open>message\<close>, or some other
  value (\<open>JsThrown\<close>).
\<close>

datatype js_exn = JsError (exn_name: string) (exn_message: string) | JsThrown

text \<open>\<open>e instanceof Error && e.name === 'TimeoutError'\<close> (crawler.ts, line 95).\<close>

definition is_TimeoutError :: "js_exn \<Rightarrow> bool" where
  "is_TimeoutError e = (case e of JsError n m \<Rightarrow> n = ''TimeoutError'' | JsThrown \<Rightarrow> False)"

text \<open>\<open>error instanceof Error ? error.message : 'Failed to fetch'\<close> (crawler.ts, line 514).\<close>

definition catch_message :: "js_exn \<Rightarrow> string" where
  "catch_message e = (case e of JsError n m \<Rightarrow> m | JsThrown \<Rightarrow> ''Failed to fetch'')"

subsection \<open>Numbers\<close>

text \<open>
  A JavaScript number is an IEEE 754 double: a finite value (kept as the rational it
  denotes), one of the two infinities, or NaN. The two zeros are not told apart (the scores
  end in \<open>Math.max(0, x)\<close>, which gives the same result for both).
\<close>

datatype jsnum = Fin rat | PosInf | NegInf | NaN

text \<open>The exponent of a positive rational: the integer part of its binary logarithm.\<close>

definition expo :: "rat \<Rightarrow> int" where
  "expo x =
     (let d = bitlen (fst (quotient_of x)) - bitlen (snd (quotient_of x))
      in if 2 powi d \<le> x then d else d - 1)"

text \<open>Rounding to the nearest integer, a tie going to the even one.\<close>

definition round_even :: "rat \<Rightarrow> int" where
  "round_even z =
     (let f = \<lfloor>z\<rfloor>; d = z - of_int f
      in if d < 1 / 2 then f else if 1 / 2 < d then f + 1 else if even f then f else f + 1)"

text \<open>
  The double a real result is rounded to (round to nearest, ties to even): 53 significant
  bits, the least exponent -1022 (below it the spacing stays \<open>2 powi - 1074\<close>), and infinity
  from \<open>2 ^ 1024\<close> on. Every arithmetic operation and every decimal literal of the source
  is rounded so once.
\<close>

definition fl :: "rat \<Rightarrow> jsnum" where
  "fl x =
     (if x = 0 then Fin 0
      else (let q = 2 powi (max (expo \<bar>x\<bar>) (- 1022) - 52);
                r = of_int (round_even (\<bar>x\<bar> / q)) * q
            in if 2 ^ 1024 \<le> r then (if 0 < x then PosInf else NegInf)
               else Fin (if 0 < x then r else - r)))"

text \<open>
  \<open>a / b\<close> on two counts (lengths of strings and arrays: integers below \<open>2 ^ 53\<close>, which
  are doubles).
\<close>

definition js_div :: "nat \<Rightarrow> nat \<Rightarrow> jsnum" where
  "js_div a b = (if b = 0 then (if a = 0 then NaN else PosInf) else fl (of_nat a / of_nat b))"

text \<open>\<open>x || 1\<close>: zero and NaN are falsy.\<close>

definition or_one :: "jsnum \<Rightarrow> jsnum" where
  "or_one x = (if x = NaN \<or> x = Fin 0 then Fin 1 else x)"

definition js_neg :: "jsnum \<Rightarrow> jsnum" where
  "js_neg x = (case x of Fin r \<Rightarrow> Fin (- r) | PosInf \<Rightarrow> NegInf | NegInf \<Rightarrow> PosInf | NaN \<Rightarrow> NaN)"

fun js_add :: "jsnum \<Rightarrow> jsnum \<Rightarrow> jsnum" where
  "js_add NaN y = NaN"
| "js_add x NaN = NaN"
| "js_add (Fin a) (Fin b) = fl (a + b)"
| "js_add PosInf NegInf = NaN"
| "js_add NegInf PosInf = NaN"
| "js_add PosInf y = PosInf"
| "js_add NegInf y = NegInf"
| "js_add x PosInf = PosInf"
| "js_add x NegInf = NegInf"

definition js_sub :: "jsnum \<Rightarrow> jsnum \<Rightarrow> jsnum" where
  "js_sub x y = js_add x (js_neg y)"

text \<open>\<open>x * y\<close>: zero times infinity is NaN.\<close>

definition inf_times :: "rat \<Rightarrow> jsnum" where
  "inf_times a = (if a = 0 then NaN else if 0 < a then PosInf else NegInf)"

fun js_mul :: "jsnum \<Rightarrow> jsnum \<Rightarrow> jsnum" where
  "js_mul NaN y = NaN"
| "js_mul x NaN = NaN"
| "js_mul (Fin a) (Fin b) = fl (a * b)"
| "js_mul (Fin a) PosInf = inf_times a"
| "js_mul (Fin a) NegInf = inf_times (- a)"
| "js_mul PosInf (Fin b) = inf_times b"
| "js_mul NegInf (Fin b) = inf_times (- b)"
| "js_mul PosInf PosInf = PosInf"
| "js_mul NegInf NegInf = PosInf"
| "js_mul PosInf NegInf = NegInf"
| "js_mul NegInf PosInf = NegInf"

text \<open>
  \<open>Math.round\<close>: the nearest integer, a tie going up. It is exact: the integers near a
  double are doubles.
\<close>

definition js_round :: "jsnum \<Rightarrow> jsnum" where
  "js_round x = (case x of Fin r \<Rightarrow> Fin (of_int \<lfloor>r + 1 / 2\<rfloor>) | PosInf \<Rightarrow> PosInf | NegInf \<Rightarrow> NegInf | NaN \<Rightarrow> NaN)"

text \<open>\<open>Math.max(c, x)\<close> and \<open>Math.min(c, x)\<close> for a finite constant \<open>c\<close>; NaN is contagious.\<close>

definition js_max :: "rat \<Rightarrow> jsnum \<Rightarrow> jsnum" where
  "js_max c x = (case x of Fin r \<Rightarrow> Fin (max c r) | PosInf \<Rightarrow> PosInf | NegInf \<Rightarrow> Fin c | NaN \<Rightarrow> NaN)"

definition js_min :: "rat \<Rightarrow> jsnum \<Rightarrow> jsnum" where
  "js_min c x = (case x of Fin r \<Rightarrow> Fin (min c r) | PosInf \<Rightarrow> Fin c | NegInf \<Rightarrow> NegInf | NaN \<Rightarrow> NaN)"

text \<open>\<open>x > c\<close>: false on NaN.\<close>

definition js_gt :: "jsnum \<Rightarrow> rat \<Rightarrow> bool" where
  "js_gt x c = (case x of Fin r \<Rightarrow> c < r | PosInf \<Rightarrow> True | NegInf \<Rightarrow> False | NaN \<Rightarrow> False)"

subsection \<open>Characters and strings\<close>

definition code :: "char \<Rightarrow> nat" where
  "code c = of_char c"

text \<open>The class \<open>\s\<close> of a regular expression, on the code units below 256.\<close>

definition is_space :: "char \<Rightarrow> bool" where
  "is_space c = (code c \<in> {9, 10, 11, 12, 13, 32, 160})"

definition is_digit :: "char \<Rightarrow> bool" where
  "is_digit c = (48 \<le> code c \<and> code c \<le> 57)"

definition is_lower :: "char \<Rightarrow> bool" where
  "is_lower c = (97 \<le> code c \<and> code c \<le> 122)"

definition is_upper :: "char \<Rightarrow> bool" where
  "is_upper c = (65 \<le> code c \<and> code c \<le> 90)"

text \<open>\<open>[a-zA-Z]\<close> and \<open>\w\<close>.\<close>

definition is_alpha :: "char \<Rightarrow> bool" where
  "is_alpha c = (is_lower c \<or> is_upper c)"

definition is_word_char :: "char \<Rightarrow> bool" where
  "is_word_char c = (is_alpha c \<or> is_digit c \<or> c = CHR ''_'')"

text \<open>\<open>[a-zA-Z0-9]\<close>, for the screenshot's file name.\<close>

definition is_alnum :: "char \<Rightarrow> bool" where
  "is_alnum c = (is_alpha c \<or> is_digit c)"

text \<open>
  \<open>String.prototype.toLowerCase\<close> on the code units below 256: the ASCII capitals and the
  Latin-1 capitals (0xC0 to 0xDE but the multiplication sign 0xD7) move up by 32.
\<close>

definition lower_char :: "char \<Rightarrow> char" where
  "lower_char c =
     (if is_upper c \<or> (192 \<le> code c \<and> code c \<le> 222 \<and> code c \<noteq> 215)
      then char_of (code c + 32) else c)"

definition toLowerCase :: "string \<Rightarrow> string" where
  "toLowerCase s = map lower_char s"

text \<open>
  \<open>s.split(re)\<close> for a regular expression \<open>[...]+\<close> that matches the maximal runs of the
  characters \<open>sep\<close>: the pieces between the runs, an empty piece before a leading run and
  after a trailing run, and the one piece \<open>s\<close> when no run occurs (also for the empty \<open>s\<close>).
\<close>

function split_runs :: "(char \<Rightarrow> bool) \<Rightarrow> string \<Rightarrow> string list" where
  "split_runs sep s =
     (let piece = takeWhile (\<lambda>c. \<not> sep c) s;
          rest = dropWhile (\<lambda>c. \<not> sep c) s
      in if rest = [] then [piece] else piece # split_runs sep (dropWhile sep rest))"
  by pat_completeness auto
termination
proof (relation "measure (\<lambda>(sep, s). length s)")
  show "wf (measure (\<lambda>(sep, s). length s))" by simp
next
  fix sep :: "char \<Rightarrow> bool" and s piece rest
  assume r: "rest = dropWhile (\<lambda>c. \<not> sep c) s" and ne: "rest \<noteq> []"
  from ne obtain c cs where rc: "rest = c # cs" by (cases rest) auto
  have "length (dropWhile sep rest) \<le> length cs"
  proof -
    have "sep c" using r rc by (metis hd_dropWhile list.sel(1) ne)
    then have "dropWhile sep rest = dropWhile sep cs" using rc by simp
    then show ?thesis by (simp add: length_dropWhile_le)
  qed
  moreover have "length rest \<le> length s" using r by (simp add: length_dropWhile_le)
  ultimately show "((sep, dropWhile sep rest), (sep, s)) \<in> measure (\<lambda>(sep, s). length s)"
    using rc by simp
qed

declare split_runs.simps [simp del]

text \<open>\<open>s.startsWith(t)\<close>, \<open>s.endsWith(t)\<close> and \<open>s.includes(t)\<close>.\<close>

definition startsWith :: "string \<Rightarrow> string \<Rightarrow> bool" where
  "startsWith s t = (take (length t) s = t)"

definition endsWith :: "string \<Rightarrow> string \<Rightarrow> bool" where
  "endsWith s t = (length t \<le> length s \<and> drop (length s - length t) s = t)"

fun includes_str :: "string \<Rightarrow> string \<Rightarrow> bool" where
  "includes_str [] t = (t = [])"
| "includes_str (c # s) t = (startsWith (c # s) t \<or> includes_str s t)"

text \<open>The decimal rendering of a non-negative integer, as a template literal prints it.\<close>

fun decimal :: "nat \<Rightarrow> string" where
  "decimal n =
     (if n < 10 then [char_of (48 + n)] else decimal (n div 10) @ [char_of (48 + n mod 10)])"

declare decimal.simps [simp del]

text \<open>
  \<open>parseInt(s)\<close> with no radix: leading white space, an optional sign, then the longest run
  of hexadecimal digits after a prefix \<open>0x\<close>, of decimal digits otherwise; NaN (\<open>None\<close>) when
  that run is empty.
\<close>

definition hex_val :: "char \<Rightarrow> nat option" where
  "hex_val c =
     (if is_digit c then Some (code c - 48)
      else if 97 \<le> code c \<and> code c \<le> 102 then Some (code c - 87)
      else if 65 \<le> code c \<and> code c \<le> 70 then Some (code c - 55)
      else None)"

definition digits_value :: "nat \<Rightarrow> string \<Rightarrow> nat" where
  "digits_value radix ds = fold (\<lambda>c acc. acc * radix + (case hex_val c of None \<Rightarrow> 0 | Some v \<Rightarrow> v)) ds 0"

definition js_parseInt :: "string \<Rightarrow> int option" where
  "js_parseInt s =
     (let t = dropWhile is_space s;
          neg = (t \<noteq> [] \<and> hd t = CHR ''-'');
          u = (if t \<noteq> [] \<and> (hd t = CHR ''-'' \<or> hd t = CHR ''+'') then tl t else t);
          hex = (startsWith u ''0x'' \<or> startsWith u ''0X'');
          ds = (if hex then takeWhile (\<lambda>c. hex_val c \<noteq> None) (drop 2 u) else takeWhile is_digit u);
          v = int (digits_value (if hex then 16 else 10) ds)
      in if ds = [] then None else Some (if neg then - v else v))"

section \<open>The data model (crawler.ts, lines 23 to 82)\<close>

datatype viewport_name = Desktop | Tablet | Mobile

record ViewportIssue =
  viewport :: viewport_name
  horizontalScroll :: bool
  overflowingElements :: nat
  smallTapTargets :: nat
  offendingElements :: "string list"
  screenshotPath :: "string option"

record heading =
  h_tag :: string
  h_text :: string

text \<open>
  A count of the keyword table. The table is a plain object, so a count is whatever
  \<open>(wordFreq[clean] || 0) + 1\<close> evaluates to: a number, or a string when \<open>+\<close> concatenates.
\<close>

datatype jsval = Num nat | Str string

record uxIssues_t =
  missingAltTags :: nat
  emptyLinks :: nat
  hasViewport :: bool
  h1Count :: nat

record visualIssues_t =
  imagesMissingDimensions :: nat
  longWords :: nat
  viewportIssues :: "ViewportIssue list"

record contentIssues_t =
  possibleTypos :: "string list"

record eeatSignals_t =
  hasAuthor :: bool
  hasDate :: bool

record contentQuality_t =
  longParagraphs :: nat
  textToCodeRatio :: jsnum

record contentMetrics_t =
  wordCount :: nat
  readabilityScore :: jsnum
  structureScore :: nat
  hasSchema :: bool
  seoScore :: nat
  aiScore :: nat
  headings :: "heading list"
  keywords_f :: "(string \<times> jsval) list"
  paragraphCount :: nat
  schemaTypes :: "string list"
  questionHeadings :: nat
  eeatSignals :: eeatSignals_t
  contentQuality :: contentQuality_t

record PageAnalysis =
  url :: string
  title :: string
  metaDescription :: string
  h1 :: "string option"
  responseTime :: int
  statusCode :: nat
  error :: "string option"
  links :: "string list"
  uxIssues :: uxIssues_t
  visualIssues :: visualIssues_t
  contentIssues :: contentIssues_t
  contentMetrics :: "contentMetrics_t option"

text \<open>The two limits of a crawl are counts: natural numbers.\<close>

record CrawlOptions =
  maxPages :: nat
  maxDepth :: nat

text \<open>
  What the first \<open>page.evaluate\<close> returns (\<open>staticAnalysis\<close>, lines 123 to 184): the facts
  the browser extracts from the document. The fields carry the source's names after \<open>s_\<close>.
\<close>

record staticAnalysis_t =
  s_title :: string
  s_metaDesc :: string
  s_h1 :: "string option"
  s_missingAltTags :: nat
  s_emptyLinks :: nat
  s_hasViewport :: bool
  s_h1Count :: nat
  s_imagesMissingDimensions :: nat
  s_textContent :: string
  s_links :: "string list"
  s_hasSchema :: bool
  s_structureCount :: nat
  s_paragraphCount :: nat
  s_headings :: "heading list"
  s_longParagraphs :: nat
  s_htmlSize :: nat
  s_schemaTypes :: "string list"
  s_hasAuthor :: bool
  s_hasDate :: bool

section \<open>Content scoring (crawler.ts, lines 341 to 459)\<close>

subsection \<open>Long words and typos (lines 342 to 359)\<close>

text \<open>\<open>staticAnalysis.textContent.split(/\s+/)\<close>.\<close>

definition words_of :: "string \<Rightarrow> string list" where
  "words_of textContent = split_runs is_space textContent"

text \<open>\<open>word.replace(/[^\w'-]/g, '')\<close>.\<close>

definition cleanWord_of :: "string \<Rightarrow> string" where
  "cleanWord_of word = filter (\<lambda>c. is_word_char c \<or> c = CHR 0x27 \<or> c = CHR ''-'') word"

text \<open>\<open>Set.prototype.add\<close> on a set kept in insertion order.\<close>

definition set_add :: "string \<Rightarrow> string list \<Rightarrow> string list" where
  "set_add x xs = (if x \<in> set xs then xs else xs @ [x])"

text \<open>
  One turn of the loop of lines 346 to 359 on the state \<open>(possibleTypos, longWords)\<close>;
  \<open>spell\<close> is the module's spell checker, \<open>None\<close> while the dictionary is not loaded.
\<close>

definition scan_word ::
  "(string \<Rightarrow> bool) option \<Rightarrow> string \<Rightarrow> string list \<times> nat \<Rightarrow> string list \<times> nat" where
  "scan_word spell word st =
     (let cleanWord = cleanWord_of word in
      if cleanWord = [] then st
      else
        (let longWords' = (if length cleanWord > 20 then snd st + 1 else snd st);
             possibleTypos' =
               (case spell of
                  None \<Rightarrow> fst st
                | Some correct \<Rightarrow>
                    if cleanWord \<noteq> [] \<and> list_all is_alpha cleanWord \<and> length cleanWord > 3
                       \<and> \<not> correct cleanWord
                    then set_add cleanWord (fst st) else fst st)
         in (possibleTypos', longWords')))"

definition scan_words :: "(string \<Rightarrow> bool) option \<Rightarrow> string list \<Rightarrow> string list \<times> nat" where
  "scan_words spell words = fold (scan_word spell) words ([], 0)"

subsection \<open>Readability (lines 361 to 378)\<close>

definition wordCount_of :: "string \<Rightarrow> nat" where
  "wordCount_of textContent = length (words_of textContent)"

definition is_sentence_end :: "char \<Rightarrow> bool" where
  "is_sentence_end c = (c = CHR ''.'' \<or> c = CHR ''!'' \<or> c = CHR ''?'')"

text \<open>\<open>staticAnalysis.textContent.split(/[.!?]+/).length || 1\<close>.\<close>

definition sentenceCount_of :: "string \<Rightarrow> nat" where
  "sentenceCount_of textContent =
     (let n = length (split_runs is_sentence_end textContent) in if n = 0 then 1 else n)"

definition is_vowel :: "char \<Rightarrow> bool" where
  "is_vowel c = (c \<in> set ''aeiouy'')"

text \<open>The number of matches of \<open>/P+/g\<close>: the maximal runs of characters of \<open>P\<close>.\<close>

function count_runs :: "(char \<Rightarrow> bool) \<Rightarrow> string \<Rightarrow> nat" where
  "count_runs P [] = 0"
| "count_runs P (c # cs) =
     (if P c then Suc (count_runs P (dropWhile P cs)) else count_runs P cs)"
  by pat_completeness auto
termination
  by (relation "measure (\<lambda>(P, s). length s)")
     (auto simp: length_dropWhile_le less_Suc_eq_le)

text \<open>\<open>.replace(/e$/, '')\<close>.\<close>

definition drop_final_e :: "string \<Rightarrow> string" where
  "drop_final_e s = (if s \<noteq> [] \<and> last s = CHR ''e'' then butlast s else s)"

text \<open>
  \<open>(clean.match(/[aeiouy]+/g) || []).length || 1\<close> for
  \<open>clean = word.toLowerCase().replace(/[^a-z]/g, '').replace(/e$/, '')\<close>.
\<close>

definition syllables_of :: "string \<Rightarrow> nat" where
  "syllables_of word =
     (let clean = drop_final_e (filter is_lower (toLowerCase word));
          n = count_runs is_vowel clean
      in if n = 0 then 1 else n)"

definition syllableCount_of :: "string list \<Rightarrow> nat" where
  "syllableCount_of words =
     fold (\<lambda>word syllableCount. syllableCount + syllables_of word) words 0"

definition avgSentenceLength_of :: "string \<Rightarrow> jsnum" where
  "avgSentenceLength_of textContent =
     js_div (wordCount_of textContent) (sentenceCount_of textContent)"

definition avgSyllablesPerWord_of :: "string \<Rightarrow> jsnum" where
  "avgSyllablesPerWord_of textContent =
     or_one (js_div (syllableCount_of (words_of textContent)) (wordCount_of textContent))"

definition readabilityScore_of :: "string \<Rightarrow> jsnum" where
  "readabilityScore_of textContent =
     js_min 100 (js_max 0 (js_round
       (js_sub (js_sub (fl 206.835) (js_mul (fl 1.015) (avgSentenceLength_of textContent)))
               (js_mul (fl 84.6) (avgSyllablesPerWord_of textContent)))))"

subsection \<open>Structure, SEO and AI scores (lines 380 to 426)\<close>

definition structureScore_of :: "staticAnalysis_t \<Rightarrow> nat" where
  "structureScore_of sa = min 100 (50 + s_structureCount sa * 5)"

text \<open>A string or \<open>null\<close> is truthy when it is a non-empty string.\<close>

definition truthy :: "string option \<Rightarrow> bool" where
  "truthy v = (case v of None \<Rightarrow> False | Some s \<Rightarrow> s \<noteq> [])"

text \<open>The score of lines 385 to 394 (the source's variable \<open>seoScore\<close>), before the two bonuses.\<close>

definition seoBase_of :: "staticAnalysis_t \<Rightarrow> nat \<Rightarrow> nat" where
  "seoBase_of sa wc =
     (let score = 0;
          score =
            (if s_title sa \<noteq> [] \<and> length (s_title sa) \<ge> 10 \<and> length (s_title sa) \<le> 60
             then score + 20
             else if s_title sa \<noteq> [] then score + 10 else score);
          score =
            (if s_metaDesc sa \<noteq> [] \<and> length (s_metaDesc sa) \<ge> 50 \<and> length (s_metaDesc sa) \<le> 160
             then score + 20
             else if s_metaDesc sa \<noteq> [] then score + 10 else score);
          score = (if truthy (s_h1 sa) then score + 20 else score);
          score = (if s_missingAltTags sa = 0 then score + 20 else score);
          score = (if wc > 300 then score + 20 else score)
      in score)"

definition valuableSchemas :: "string list" where
  "valuableSchemas =
     [''Article'', ''Product'', ''FAQPage'', ''Organization'', ''BreadcrumbList'', ''Recipe'',
      ''Review'']"

definition questionWords :: "string list" where
  "questionWords =
     [''who'', ''what'', ''where'', ''when'', ''why'', ''how'', ''can'', ''does'', ''is'', ''are'']"

definition questionHeadings_of :: "heading list \<Rightarrow> nat" where
  "questionHeadings_of hs =
     length (filter (\<lambda>h. let text = toLowerCase (h_text h)
                          in list_ex (\<lambda>w. startsWith text w) questionWords \<or> endsWith text ''?'') hs)"

definition aiScore_of :: "staticAnalysis_t \<Rightarrow> nat \<Rightarrow> jsnum \<Rightarrow> nat \<Rightarrow> nat" where
  "aiScore_of sa structure readability questions =
     (let score = 0;
          score =
            (if s_hasSchema sa
             then (let foundValuable = list_ex (\<lambda>t. t \<in> set valuableSchemas) (s_schemaTypes sa)
                   in if foundValuable then score + 10 + 30 else score + 10 + 10)
             else score);
          score = (if structure > 70 then score + 15 else score);
          score = (if js_gt readability 60 then score + 15 else score);
          score = (if questions > 0 then score + 15 else score);
          score = (if s_hasAuthor sa then score + 10 else score);
          score = (if s_hasDate sa then score + 5 else score)
      in min 100 score)"

subsection \<open>Keyword extraction (lines 428 to 440)\<close>

definition stopWords :: "string list" where
  "stopWords =
     [''the'', ''be'', ''to'', ''of'', ''and'', ''a'', ''in'', ''that'', ''have'', ''i'', ''it'',
      ''for'', ''not'', ''on'', ''with'', ''he'', ''as'', ''you'', ''do'', ''at'', ''this'',
      ''but'', ''his'', ''by'', ''from'', ''they'', ''we'', ''say'', ''her'', ''she'', ''or'',
      ''an'', ''will'', ''my'', ''one'', ''all'', ''would'', ''there'', ''their'', ''what'',
      ''so'', ''up'', ''out'', ''if'', ''about'', ''who'', ''get'', ''which'', ''go'', ''me'',
      ''is'', ''are'', ''was'', ''were'']"

text \<open>\<open>word.toLowerCase().replace(/[^a-z]/g, '')\<close>.\<close>

definition keyword_clean :: "string \<Rightarrow> string" where
  "keyword_clean word = filter is_lower (toLowerCase word)"

text \<open>
  The text that \<open>+\<close> makes of the function \<open>Object\<close> (V8 prints a native function so).
\<close>

definition Object_source :: string where
  "Object_source = ''function Object() { [native code] }''"

text \<open>
  \<open>wordFreq[clean] = (wordFreq[clean] || 0) + 1\<close> on the object \<open>wordFreq\<close>, which starts
  as \<open>{}\<close> and is kept as the list of its own properties in insertion order (the order of
  \<open>Object.entries\<close> for keys that are not array indices). Reading a key that is not an own
  property falls through to \<open>Object.prototype\<close>: of the keys this loop can build (lower-case
  letters only) that finds \<open>constructor\<close>, the function \<open>Object\<close>, which is truthy, so that
  \<open>+ 1\<close> concatenates; any other missing key reads \<open>undefined\<close>.
\<close>

definition freq_bump :: "(string \<times> jsval) list \<Rightarrow> string \<Rightarrow> (string \<times> jsval) list" where
  "freq_bump wordFreq clean =
     AList.update clean
       (case map_of wordFreq clean of
          Some (Num n) \<Rightarrow> Num (n + 1)
        | Some (Str s) \<Rightarrow> if s = [] then Num 1 else Str (s @ ''1'')
        | None \<Rightarrow> if clean = ''constructor'' then Str (Object_source @ ''1'') else Num 1)
       wordFreq"

definition keyword_step :: "string \<Rightarrow> (string \<times> jsval) list \<Rightarrow> (string \<times> jsval) list" where
  "keyword_step word wordFreq =
     (let clean = keyword_clean word
      in if length clean > 3 \<and> clean \<notin> set stopWords then freq_bump wordFreq clean
         else wordFreq)"

definition wordFreq_of :: "string list \<Rightarrow> (string \<times> jsval) list" where
  "wordFreq_of words = fold keyword_step words []"

text \<open>
  The comparator \<open>([, a], [, b]) => b - a\<close>: \<open>None\<close> is NaN, which the subtraction gives as
  soon as one count is a string of the table (none of them reads as a number).
\<close>

definition freq_compare :: "string \<times> jsval \<Rightarrow> string \<times> jsval \<Rightarrow> int option" where
  "freq_compare x y =
     (case (snd y, snd x) of (Num b, Num a) \<Rightarrow> Some (int b - int a) | _ \<Rightarrow> None)"

text \<open>
  \<open>Array.prototype.sort\<close> calls the comparator through a wrapper that turns NaN into 0.
\<close>

definition order_of :: "int option \<Rightarrow> int" where
  "order_of r = (case r of None \<Rightarrow> 0 | Some v \<Rightarrow> v)"

text \<open>
  Where all counts are numbers the comparator is consistent, and ECMAScript fixes the
  result: the entries by descending count, entries of equal count in their order in the
  table (the sort is stable). That is the stable insertion sort: a comparator result below
  zero puts its first argument first.
\<close>

fun insert_sorted :: "('a \<Rightarrow> 'a \<Rightarrow> int option) \<Rightarrow> 'a \<Rightarrow> 'a list \<Rightarrow> 'a list" where
  "insert_sorted cmp x [] = [x]"
| "insert_sorted cmp x (y # ys) =
     (if order_of (cmp y x) < 0 then y # insert_sorted cmp x ys else x # y # ys)"

definition stable_sort :: "('a \<Rightarrow> 'a \<Rightarrow> int option) \<Rightarrow> 'a list \<Rightarrow> 'a list" where
  "stable_sort cmp xs = foldr (insert_sorted cmp) xs []"

text \<open>
  With a string among the counts the comparator is not consistent, the order is left to
  the engine, and the engine is V8, whose sort (\<open>third_party/v8/builtins/array-sort.tq\<close>)
  on an array of fewer than 64 elements is one call of \<open>CountAndMakeRun\<close> followed by one
  of \<open>BinaryInsertionSort\<close>.

  \<open>CountAndMakeRun\<close>: the first two elements decide whether the run at the start of the
  array descends (\<open>order < 0\<close> for the second against the first); the run goes on while each
  element against its predecessor keeps that direction (strictly, when descending); a
  descending run is reversed in place. \<open>run_length\<close> counts the elements of the run after
  the second.
\<close>

fun run_length :: "('a \<Rightarrow> 'a \<Rightarrow> int option) \<Rightarrow> bool \<Rightarrow> 'a \<Rightarrow> 'a list \<Rightarrow> nat" where
  "run_length cmp isDescending previousElement [] = 0"
| "run_length cmp isDescending previousElement (currentElement # rest) =
     (let order = order_of (cmp currentElement previousElement)
      in if (if isDescending then order \<ge> 0 else order < 0) then 0
         else Suc (run_length cmp isDescending currentElement rest))"

definition count_and_make_run :: "('a \<Rightarrow> 'a \<Rightarrow> int option) \<Rightarrow> 'a list \<Rightarrow> 'a list \<times> nat" where
  "count_and_make_run cmp workArray =
     (case workArray of
        elementHigh # elementLow # rest \<Rightarrow>
          (let isDescending = order_of (cmp elementLow elementHigh) < 0;
               runLength = 2 + run_length cmp isDescending elementLow rest
           in (if isDescending then rev (take runLength workArray) @ drop runLength workArray
               else workArray,
               runLength))
      | _ \<Rightarrow> (workArray, length workArray))"

text \<open>
  \<open>BinaryInsertionSort\<close>: each element after the run is the \<open>pivot\<close> in turn; the binary
  search between \<open>left\<close> and \<open>right\<close> compares the pivot with the middle element and goes
  left when the order is below zero, else right; the pivot is put at the place found and
  the elements from there on move up by one. The search reads the part before the pivot
  only, \<open>front\<close> below.
\<close>

function binary_search :: "('a \<Rightarrow> 'a \<Rightarrow> int option) \<Rightarrow> 'a list \<Rightarrow> 'a \<Rightarrow> nat \<Rightarrow> nat \<Rightarrow> nat" where
  "binary_search cmp workArray pivot left right =
     (if left < right
      then (let mid = left + (right - left) div 2
            in if order_of (cmp pivot (workArray ! mid)) < 0
               then binary_search cmp workArray pivot left mid
               else binary_search cmp workArray pivot (mid + 1) right)
      else left)"
  by pat_completeness auto
termination
  by (relation "measure (\<lambda>(cmp, workArray, pivot, left, right). right - left)") auto

declare binary_search.simps [simp del]

fun binary_insertion :: "('a \<Rightarrow> 'a \<Rightarrow> int option) \<Rightarrow> 'a list \<Rightarrow> 'a list \<Rightarrow> 'a list" where
  "binary_insertion cmp front [] = front"
| "binary_insertion cmp front (pivot # rest) =
     (let left = binary_search cmp front pivot 0 (length front)
      in binary_insertion cmp (take left front @ pivot # drop left front) rest)"

definition short_sort :: "('a \<Rightarrow> 'a \<Rightarrow> int option) \<Rightarrow> 'a list \<Rightarrow> 'a list" where
  "short_sort cmp xs =
     (if length xs < 2 then xs
      else (let run = count_and_make_run cmp xs
            in binary_insertion cmp (take (snd run) (fst run)) (drop (snd run) (fst run))))"

text \<open>
  \<open>Object.entries(wordFreq).sort(([, a], [, b]) => b - a)\<close>. On 64 entries or more with a
  string among the counts V8 merges several runs; the model takes that order from the
  engine, as the parameter \<open>long_sort\<close>.
\<close>

type_synonym entries = "(string \<times> jsval) list"

definition is_count :: "jsval \<Rightarrow> bool" where
  "is_count v = (case v of Num n \<Rightarrow> True | Str s \<Rightarrow> False)"

definition js_sort :: "(entries \<Rightarrow> entries) \<Rightarrow> entries \<Rightarrow> entries" where
  "js_sort long_sort xs =
     (if list_all (\<lambda>e. is_count (snd e)) xs then stable_sort freq_compare xs
      else if length xs < 64 then short_sort freq_compare xs
      else long_sort xs)"

definition keywords_of :: "(entries \<Rightarrow> entries) \<Rightarrow> string \<Rightarrow> entries" where
  "keywords_of long_sort textContent =
     take 5 (js_sort long_sort (wordFreq_of (words_of textContent)))"

subsection \<open>The bonuses of the SEO score (lines 442 to 456) and the ratio (line 459)\<close>

definition keywordsInHeadings_of :: "(string \<times> jsval) list \<Rightarrow> heading list \<Rightarrow> nat" where
  "keywordsInHeadings_of kws hs =
     length (filter (\<lambda>k. list_ex (\<lambda>h. includes_str (toLowerCase (h_text h)) (fst k)) hs) kws)"

text \<open>
  One turn of the loop of lines 451 to 455 on \<open>(previousLevel, hierarchyIssues)\<close>; a level is
  \<open>None\<close> when \<open>parseInt\<close> gives NaN, and a comparison with NaN is false.
\<close>

definition hierarchy_step :: "heading \<Rightarrow> int option \<times> nat \<Rightarrow> int option \<times> nat" where
  "hierarchy_step h st =
     (let level = js_parseInt (drop 1 (h_tag h));
          skips = (case (level, fst st) of (Some l, Some p) \<Rightarrow> l > p + 1 | _ \<Rightarrow> False)
      in (level, if skips then snd st + 1 else snd st))"

definition hierarchyIssues_of :: "heading list \<Rightarrow> nat" where
  "hierarchyIssues_of hs = snd (fold hierarchy_step hs (Some 0, 0))"

definition seoScore_of :: "(entries \<Rightarrow> entries) \<Rightarrow> staticAnalysis_t \<Rightarrow> nat" where
  "seoScore_of long_sort sa =
     (let score = seoBase_of sa (wordCount_of (s_textContent sa));
          keywordsInHeadings =
            keywordsInHeadings_of (keywords_of long_sort (s_textContent sa)) (s_headings sa);
          score = (if keywordsInHeadings > 0 then min 100 (score + 10) else score);
          hierarchyIssues = hierarchyIssues_of (s_headings sa);
          score =
            (if hierarchyIssues = 0 \<and> length (s_headings sa) > 0 then min 100 (score + 10)
             else score)
      in score)"

definition textToCodeRatio_of :: "staticAnalysis_t \<Rightarrow> jsnum" where
  "textToCodeRatio_of sa =
     (if s_htmlSize sa > 0 then js_div (length (s_textContent sa)) (s_htmlSize sa) else Fin 0)"

text \<open>The \<open>contentMetrics\<close> object of lines 483 to 503.\<close>

definition contentMetrics_of :: "(entries \<Rightarrow> entries) \<Rightarrow> staticAnalysis_t \<Rightarrow> contentMetrics_t" where
  "contentMetrics_of long_sort sa =
     \<lparr> wordCount = wordCount_of (s_textContent sa),
       readabilityScore = readabilityScore_of (s_textContent sa),
       structureScore = structureScore_of sa,
       hasSchema = s_hasSchema sa,
       seoScore = seoScore_of long_sort sa,
       aiScore = aiScore_of sa (structureScore_of sa) (readabilityScore_of (s_textContent sa))
                   (questionHeadings_of (s_headings sa)),
       headings = s_headings sa,
       keywords_f = keywords_of long_sort (s_textContent sa),
       paragraphCount = s_paragraphCount sa,
       schemaTypes = s_schemaTypes sa,
       questionHeadings = questionHeadings_of (s_headings sa),
       eeatSignals = \<lparr> hasAuthor = s_hasAuthor sa, hasDate = s_hasDate sa \<rparr>,
       contentQuality =
         \<lparr> longParagraphs = s_longParagraphs sa, textToCodeRatio = textToCodeRatio_of sa \<rparr> \<rparr>"

section \<open>The page analyzer (crawler.ts, lines 84 to 521)\<close>

subsection \<open>The page as the analyzer sees it\<close>

text \<open>
  \<open>analyzePage\<close> talks to a browser page. The model takes the outcome of each call on the
  page as an input: what \<open>page.goto\<close> resolves to or throws, what the two \<open>page.evaluate\<close>
  calls return, whether a call fails. \<open>Inl e\<close> and \<open>Some e\<close> below are the call throwing \<open>e\<close>.
  What the engine it runs on leaves open is an input too.
\<close>

record http_response =
  status :: nat
  ok :: bool

text \<open>What the second \<open>page.evaluate\<close> returns (\<open>issues\<close>, line 306).\<close>

record vp_measure =
  m_horizontalScroll :: bool
  m_overflowingElements :: nat
  m_smallTapTargets :: nat
  m_offendingElements :: "string list"

text \<open>
  One turn of the viewport loop: \<open>vp_now\<close> is \<open>Date.now()\<close> of line 312, \<open>vp_cwd\<close> the
  outcome of building the two paths of lines 315 and 316 (\<open>process.cwd()\<close> throws when the
  working directory is gone), \<open>vp_screenshot\<close> the outcome of the \<open>try\<close> block of lines 319
  to 325 (creating the directory and taking the screenshot).
\<close>

record vp_env =
  vp_setViewport :: "js_exn option"
  vp_evaluate :: "js_exn + vp_measure"
  vp_now :: nat
  vp_cwd :: "js_exn option"
  vp_screenshot :: "js_exn option"

text \<open>
  \<open>now_start\<close> and \<open>now_end\<close> are \<open>Date.now()\<close> of lines 85 and 102; \<open>goto\<close> resolves to a
  response or to \<open>null\<close>; \<open>engine_sort\<close> is the order the engine gives the keyword table
  where the model of \<open>sort\<close> leaves it open.
\<close>

record page_env =
  now_start :: nat
  now_end :: nat
  setViewport0 :: "js_exn option"
  goto :: "js_exn + http_response option"
  evaluate_static :: "js_exn + staticAnalysis_t"
  sweep_env :: "viewport_name \<Rightarrow> vp_env"
  engine_sort :: "entries \<Rightarrow> entries"

text \<open>The calls made on the page, in order, as a log.\<close>

datatype page_op =
    SetViewport nat nat
  | Goto string
  | Evaluate_static
  | Evaluate_viewport
  | TryScreenshot string

subsection \<open>The viewport sweep (lines 186 to 339)\<close>

definition viewports :: "(viewport_name \<times> nat \<times> nat) list" where
  "viewports = [(Desktop, 1920, 1080), (Tablet, 768, 1024), (Mobile, 375, 667)]"

definition viewport_text :: "viewport_name \<Rightarrow> string" where
  "viewport_text n = (case n of Desktop \<Rightarrow> ''Desktop'' | Tablet \<Rightarrow> ''Tablet'' | Mobile \<Rightarrow> ''Mobile'')"

text \<open>\<open>url.replace(/[^a-zA-Z0-9]/g, '_').substring(0, 30)\<close> and the file name of line 314.\<close>

definition safeUrl_of :: "string \<Rightarrow> string" where
  "safeUrl_of u = take 30 (map (\<lambda>c. if is_alnum c then c else CHR ''_'') u)"

definition screenshot_filename :: "string \<Rightarrow> viewport_name \<Rightarrow> nat \<Rightarrow> string" where
  "screenshot_filename u n timestamp =
     ''issue_'' @ safeUrl_of u @ ''_'' @ viewport_text n @ ''_'' @ decimal timestamp @ ''.jpg''"

text \<open>
  The loop over the viewports: the issues collected, or the exception that leaves the loop,
  with the log of the calls. A failing screenshot is caught inside the loop (line 326);
  the paths are built before that \<open>try\<close>, so a failure there leaves the loop.
\<close>

fun sweep ::
  "page_env \<Rightarrow> string \<Rightarrow> (viewport_name \<times> nat \<times> nat) list
     \<Rightarrow> (js_exn + ViewportIssue list) \<times> page_op list" where
  "sweep env u [] = (Inr [], [])"
| "sweep env u ((name, width, height) # vps) =
     (case vp_setViewport (sweep_env env name) of
        Some x \<Rightarrow> (Inl x, [SetViewport width height])
      | None \<Rightarrow>
         (case vp_evaluate (sweep_env env name) of
            Inl x \<Rightarrow> (Inl x, [SetViewport width height, Evaluate_viewport])
          | Inr issues \<Rightarrow>
             (let capture = (m_horizontalScroll issues \<or> m_overflowingElements issues > 0);
                  filename = screenshot_filename u name (vp_now (sweep_env env name));
                  paths = (if capture then vp_cwd (sweep_env env name) else None);
                  issue =
                    \<lparr> viewport = name,
                      horizontalScroll = m_horizontalScroll issues,
                      overflowingElements = m_overflowingElements issues,
                      smallTapTargets = m_smallTapTargets issues,
                      offendingElements = m_offendingElements issues,
                      screenshotPath =
                        (if capture \<and> vp_screenshot (sweep_env env name) = None
                         then Some (''/screenshots/'' @ filename) else None) \<rparr>;
                  ops = [SetViewport width height, Evaluate_viewport]
                          @ (if capture then [TryScreenshot filename] else [])
              in case paths of
                   Some x \<Rightarrow> (Inl x, [SetViewport width height, Evaluate_viewport])
                 | None \<Rightarrow>
                    (case sweep env u vps of
                       (Inl x, ops') \<Rightarrow> (Inl x, ops @ ops')
                     | (Inr rest, ops') \<Rightarrow> (Inr (issue # rest), ops @ ops')))))"

subsection \<open>The reports\<close>

text \<open>
  The object returned on a response that is not ok (lines 107 to 119) and by the outer
  \<open>catch\<close> (lines 507 to 519): the two literals differ in \<open>responseTime\<close>, \<open>statusCode\<close> and
  \<open>error\<close> only.
\<close>

definition degraded_report :: "string \<Rightarrow> int \<Rightarrow> nat \<Rightarrow> string \<Rightarrow> PageAnalysis" where
  "degraded_report u rt sc err =
     \<lparr> url = u, title = [], metaDescription = [], h1 = None, responseTime = rt,
       statusCode = sc, error = Some err, links = [],
       uxIssues = \<lparr> missingAltTags = 0, emptyLinks = 0, hasViewport = False, h1Count = 0 \<rparr>,
       visualIssues = \<lparr> imagesMissingDimensions = 0, longWords = 0, viewportIssues = [] \<rparr>,
       contentIssues = \<lparr> possibleTypos = [] \<rparr>,
       contentMetrics = None \<rparr>"

text \<open>The object of lines 461 to 504.\<close>

definition full_report ::
  "(string \<Rightarrow> bool) option \<Rightarrow> (entries \<Rightarrow> entries) \<Rightarrow> string \<Rightarrow> int \<Rightarrow> nat
     \<Rightarrow> staticAnalysis_t \<Rightarrow> ViewportIssue list \<Rightarrow> PageAnalysis" where
  "full_report spell long_sort u rt sc sa vis =
     (let scan = scan_words spell (words_of (s_textContent sa))
      in \<lparr> url = u, title = s_title sa, metaDescription = s_metaDesc sa, h1 = s_h1 sa,
           responseTime = rt, statusCode = sc, error = None, links = s_links sa,
           uxIssues =
             \<lparr> missingAltTags = s_missingAltTags sa, emptyLinks = s_emptyLinks sa,
               hasViewport = s_hasViewport sa, h1Count = s_h1Count sa \<rparr>,
           visualIssues =
             \<lparr> imagesMissingDimensions = s_imagesMissingDimensions sa, longWords = snd scan,
               viewportIssues = vis \<rparr>,
           contentIssues = \<lparr> possibleTypos = take 5 (fst scan) \<rparr>,
           contentMetrics = Some (contentMetrics_of long_sort sa) \<rparr>)"

subsection \<open>analyzePage\<close>

text \<open>
  Lines 90 to 100: a \<open>TimeoutError\<close> of \<open>page.goto\<close> is caught and leaves \<open>response\<close>
  undefined (\<open>None\<close>, as for \<open>null\<close>); any other exception is thrown again.
\<close>

definition navigate :: "page_env \<Rightarrow> js_exn + http_response option" where
  "navigate env =
     (case goto env of
        Inl e \<Rightarrow> if is_TimeoutError e then Inr None else Inl e
      | Inr response \<Rightarrow> Inr response)"

text \<open>
  The body of the outer \<open>try\<close> (lines 87 to 504): the report it returns or the exception
  that leaves it, with the log of the calls on the page.
\<close>

definition analyzePage_try ::
  "(string \<Rightarrow> bool) option \<Rightarrow> page_env \<Rightarrow> string \<Rightarrow> (js_exn + PageAnalysis) \<times> page_op list" where
  "analyzePage_try spell env u =
     (case setViewport0 env of
        Some x \<Rightarrow> (Inl x, [SetViewport 1920 1080])
      | None \<Rightarrow>
         (case navigate env of
            Inl x \<Rightarrow> (Inl x, [SetViewport 1920 1080, Goto u])
          | Inr response \<Rightarrow>
             (let rt = int (now_end env) - int (now_start env);
                  sc = (case response of Some r \<Rightarrow> status r | None \<Rightarrow> 0);
                  ops0 = [SetViewport 1920 1080, Goto u]
              in if (case response of Some r \<Rightarrow> \<not> ok r | None \<Rightarrow> False)
                 then (Inr (degraded_report u rt sc (''HTTP '' @ decimal sc)), ops0)
                 else
                   (case evaluate_static env of
                      Inl x \<Rightarrow> (Inl x, ops0 @ [Evaluate_static])
                    | Inr sa \<Rightarrow>
                       (case sweep env u viewports of
                          (Inl x, ops) \<Rightarrow> (Inl x, ops0 @ [Evaluate_static] @ ops)
                        | (Inr vis, ops) \<Rightarrow>
                            (Inr (full_report spell (engine_sort env) u rt sc sa vis),
                             ops0 @ [Evaluate_static] @ ops))))))"

text \<open>\<open>analyzePage\<close>: the outer \<open>catch\<close> turns an exception into a report (lines 506 to 520).\<close>

definition analyzePage :: "(string \<Rightarrow> bool) option \<Rightarrow> page_env \<Rightarrow> string \<Rightarrow> PageAnalysis" where
  "analyzePage spell env u =
     (case fst (analyzePage_try spell env u) of
        Inr report \<Rightarrow> report
      | Inl e \<Rightarrow> degraded_report u 0 0 (catch_message e))"

definition analyzePage_ops :: "(string \<Rightarrow> bool) option \<Rightarrow> page_env \<Rightarrow> string \<Rightarrow> page_op list" where
  "analyzePage_ops spell env u = snd (analyzePage_try spell env u)"

section \<open>The crawl (crawler.ts, lines 523 to 587)\<close>

text \<open>
  \<open>new URL(input, base)\<close> is the platform's parser: the crawl takes it as a parameter \<open>U\<close>,
  \<open>None\<close> when the constructor throws. Of the parsed URL the crawl reads \<open>toString()\<close>
  (\<open>href\<close>), \<open>hostname\<close> and \<open>protocol\<close>.
\<close>

record js_url =
  href :: string
  hostname :: string
  protocol :: string

type_synonym url_api = "string \<Rightarrow> string option \<Rightarrow> js_url option"

text \<open>\<open>absoluteUrl.split('#')[0]\<close>.\<close>

definition strip_fragment :: "string \<Rightarrow> string" where
  "strip_fragment s = takeWhile (\<lambda>c. c \<noteq> CHR ''#'') s"

text \<open>
  The body of the loop over the links (lines 568 to 580) for one link: the URL pushed on
  the queue, if any.
\<close>

definition admit :: "url_api \<Rightarrow> string \<Rightarrow> string list \<Rightarrow> string \<Rightarrow> string \<Rightarrow> string option" where
  "admit U allowedDomain visited u link =
     (case U link (Some u) of
        None \<Rightarrow> None
      | Some resolved \<Rightarrow>
         (let absoluteUrl = href resolved
          in case U absoluteUrl None of
               None \<Rightarrow> None
             | Some urlObj \<Rightarrow>
                 if hostname urlObj = allowedDomain
                    \<and> (protocol urlObj = ''http:'' \<or> protocol urlObj = ''https:'')
                 then (let cleanUrl = strip_fragment absoluteUrl
                       in if cleanUrl \<notin> set visited then Some cleanUrl else None)
                 else None))"

definition enqueue_links ::
  "url_api \<Rightarrow> string \<Rightarrow> string list \<Rightarrow> string \<Rightarrow> nat \<Rightarrow> string list \<Rightarrow> (string \<times> nat) list
     \<Rightarrow> (string \<times> nat) list" where
  "enqueue_links U allowedDomain visited u depth ls queue =
     fold (\<lambda>link q. case admit U allowedDomain visited u link of
                       None \<Rightarrow> q
                     | Some cleanUrl \<Rightarrow> q @ [(cleanUrl, depth + 1)]) ls queue"

text \<open>
  The browser during one crawl: whether \<open>puppeteer.launch\<close> throws, whether opening the
  \<open>n\<close>-th page (\<open>newPage\<close>, \<open>setRequestInterception\<close>) or closing it throws, what the \<open>n\<close>-th
  page does when it is sent to a URL, and whether \<open>browser.close\<close> throws.
\<close>

record crawl_env =
  launch :: "js_exn option"
  newPage :: "nat \<Rightarrow> js_exn option"
  page_of :: "nat \<Rightarrow> string \<Rightarrow> page_env"
  closePage :: "nat \<Rightarrow> js_exn option"
  closeBrowser :: "js_exn option"

text \<open>
  Lines 566 to 582: the queue after the links of the page just analyzed have been looked
  at; \<open>visited\<close> is the set before the page's own URL was added.
\<close>

definition next_queue ::
  "url_api \<Rightarrow> CrawlOptions \<Rightarrow> string \<Rightarrow> string list \<Rightarrow> string \<Rightarrow> nat \<Rightarrow> PageAnalysis
     \<Rightarrow> (string \<times> nat) list \<Rightarrow> (string \<times> nat) list" where
  "next_queue U options allowedDomain visited u depth analysis rest =
     (if depth < maxDepth options
      then enqueue_links U allowedDomain (u # visited) u depth (links analysis) rest
      else rest)"

text \<open>
  The \<open>while\<close> loop of lines 539 to 583 on the state \<open>visited\<close>, \<open>queue\<close>, \<open>pagesCrawled\<close>:
  the pages analyzed from here on, each with the URL and the depth it was dequeued with, and
  the exception that ends the loop, if any. The generator yields the analyses in this order.
\<close>

function crawl_loop ::
  "url_api \<Rightarrow> (string \<Rightarrow> bool) option \<Rightarrow> crawl_env \<Rightarrow> CrawlOptions \<Rightarrow> string
     \<Rightarrow> string list \<Rightarrow> (string \<times> nat) list \<Rightarrow> nat
     \<Rightarrow> (string \<times> nat \<times> PageAnalysis) list \<times> js_exn option" where
  "crawl_loop U spell env options allowedDomain visited queue pagesCrawled =
     (case queue of
        [] \<Rightarrow> ([], None)
      | (u, depth) # rest \<Rightarrow>
          if \<not> pagesCrawled < maxPages options then ([], None)
          else if u \<in> set visited
          then crawl_loop U spell env options allowedDomain visited rest pagesCrawled
          else
            (case newPage env pagesCrawled of
               Some e \<Rightarrow> ([], Some e)
             | None \<Rightarrow>
                (let analysis = analyzePage spell (page_of env pagesCrawled u) u
                 in case closePage env pagesCrawled of
                      Some e \<Rightarrow> ([], Some e)
                    | None \<Rightarrow>
                       (let r = crawl_loop U spell env options allowedDomain (u # visited)
                                  (next_queue U options allowedDomain visited u depth analysis rest)
                                  (Suc pagesCrawled)
                        in ((u, depth, analysis) # fst r, snd r)))))"
  by pat_completeness auto
termination
  by (relation "measures [\<lambda>(U, spell, env, options, allowedDomain, visited, queue, pagesCrawled).
                            maxPages options - pagesCrawled,
                          \<lambda>(U, spell, env, options, allowedDomain, visited, queue, pagesCrawled).
                            length queue]")
     auto

declare crawl_loop.simps [simp del]

text \<open>
  \<open>crawlSite\<close>: the visits in the order their analyses are yielded, and the exception the
  generator ends with, if any. \<open>new URL(startUrl)\<close> throwing is a \<open>TypeError\<close>;
  \<open>browser.close\<close> runs in the \<open>finally\<close> block.
\<close>

definition crawlSite ::
  "url_api \<Rightarrow> (string \<Rightarrow> bool) option \<Rightarrow> crawl_env \<Rightarrow> string \<Rightarrow> CrawlOptions
     \<Rightarrow> (string \<times> nat \<times> PageAnalysis) list \<times> js_exn option" where
  "crawlSite U spell env startUrl options =
     (case launch env of
        Some e \<Rightarrow> ([], Some e)
      | None \<Rightarrow>
         (let r = (case U startUrl None of
                     None \<Rightarrow> ([], Some (JsError ''TypeError'' ''Invalid URL''))
                   | Some startUrlObj \<Rightarrow>
                       crawl_loop U spell env options (hostname startUrlObj) []
                         [(startUrl, 0)] 0)
          in case closeBrowser env of
               Some e \<Rightarrow> (fst r, Some e)
             | None \<Rightarrow> r))"

text \<open>The analyses the generator yields.\<close>

definition yielded :: "(string \<times> nat \<times> PageAnalysis) list \<times> js_exn option \<Rightarrow> PageAnalysis list" where
  "yielded r = map (\<lambda>v. snd (snd v)) (fst r)"

section \<open>The specification's wording, as definitions\<close>

subsection \<open>Readability\<close>

text \<open>
  The Flesch Reading Ease as the specification writes it, a formula on the three counts,
  and the score as its value rounded to the nearest integer and clamped into 0 to 100.
\<close>

definition flesch_formula :: "nat \<Rightarrow> nat \<Rightarrow> nat \<Rightarrow> rat" where
  "flesch_formula wc sc yc =
     206.835 - 1.015 * (of_nat wc / of_nat sc) - 84.6 * (of_nat yc / of_nat wc)"

definition readability_spec :: "string \<Rightarrow> int" where
  "readability_spec textContent =
     min 100 (max 0 (round (flesch_formula (wordCount_of textContent)
       (sentenceCount_of textContent) (syllableCount_of (words_of textContent)))))"

subsection \<open>Keywords\<close>

text \<open>
  The keyword rule in the specification's words: the tokens, lower-cased and stripped of
  what is not a letter, that are longer than 3 characters and no stop word; each distinct
  token in the order of its first occurrence with the number of its occurrences; the first
  five after a stable sort by descending count.
\<close>

definition kept_tokens :: "string list \<Rightarrow> string list" where
  "kept_tokens words =
     filter (\<lambda>t. length t > 3 \<and> t \<notin> set stopWords) (map keyword_clean words)"

definition first_seen :: "string list \<Rightarrow> string list" where
  "first_seen ts = rev (remdups (rev ts))"

definition keywords_spec :: "string \<Rightarrow> (string \<times> nat) list" where
  "keywords_spec textContent =
     (let kept = kept_tokens (words_of textContent)
      in take 5 (sort_key (\<lambda>p. - int (snd p))
           (map (\<lambda>w. (w, count_list kept w)) (first_seen kept))))"

subsection \<open>Failures of the page protocol\<close>

text \<open>
  The first failure that leaves the viewport loop: a failing resize or measurement, or,
  at a viewport with an overflow, a failure to build the screenshot's path. A failing
  screenshot is not one, it is caught where it happens.
\<close>

fun sweep_failure :: "page_env \<Rightarrow> (viewport_name \<times> nat \<times> nat) list \<Rightarrow> js_exn option" where
  "sweep_failure env [] = None"
| "sweep_failure env ((name, width, height) # vps) =
     (case vp_setViewport (sweep_env env name) of
        Some x \<Rightarrow> Some x
      | None \<Rightarrow>
         (case vp_evaluate (sweep_env env name) of
            Inl x \<Rightarrow> Some x
          | Inr issues \<Rightarrow>
             (case (if m_horizontalScroll issues \<or> m_overflowingElements issues > 0
                    then vp_cwd (sweep_env env name) else None) of
                Some x \<Rightarrow> Some x
              | None \<Rightarrow> sweep_failure env vps)))"

text \<open>
  The first failure of the whole protocol that no inner handler absorbs: a failing first
  resize, a navigation failure other than a timeout, a failing extraction, a failure of the
  viewport loop. After a response that is not ok no further step runs.
\<close>

definition protocol_failure :: "page_env \<Rightarrow> js_exn option" where
  "protocol_failure env =
     (case setViewport0 env of
        Some x \<Rightarrow> Some x
      | None \<Rightarrow>
         (case goto env of
            Inl x \<Rightarrow>
              if is_TimeoutError x
              then (case evaluate_static env of
                      Inl y \<Rightarrow> Some y
                    | Inr sa \<Rightarrow> sweep_failure env viewports)
              else Some x
          | Inr response \<Rightarrow>
              if (case response of Some r \<Rightarrow> \<not> ok r | None \<Rightarrow> False) then None
              else (case evaluate_static env of
                      Inl y \<Rightarrow> Some y
                    | Inr sa \<Rightarrow> sweep_failure env viewports)))"

subsection \<open>Links between analyzed pages\<close>

text \<open>
  \<open>link\<close>, found on the page \<open>base\<close>, resolves to an http or https URL on the host
  \<open>allowedDomain\<close>, and \<open>target\<close> is that URL without its fragment.
\<close>

definition reaches :: "url_api \<Rightarrow> string \<Rightarrow> string \<Rightarrow> string \<Rightarrow> string \<Rightarrow> bool" where
  "reaches U allowedDomain base link target =
     (case U link (Some base) of
        None \<Rightarrow> False
      | Some resolved \<Rightarrow>
         (case U (href resolved) None of
            None \<Rightarrow> False
          | Some urlObj \<Rightarrow>
              hostname urlObj = allowedDomain
              \<and> (protocol urlObj = ''http:'' \<or> protocol urlObj = ''https:'')
              \<and> target = strip_fragment (href resolved)))"

text \<open>
  The visit \<open>w\<close> was enqueued from the visit \<open>v\<close>: \<open>v\<close> was dequeued at a depth below
  \<open>maxDepth\<close>, \<open>w\<close> one level deeper, and a link of \<open>v\<close>'s report reaches \<open>w\<close>'s URL.
\<close>

definition child_of ::
  "url_api \<Rightarrow> string \<Rightarrow> CrawlOptions \<Rightarrow> string \<times> nat \<times> PageAnalysis
     \<Rightarrow> string \<times> nat \<times> PageAnalysis \<Rightarrow> bool" where
  "child_of U allowedDomain options v w =
     (fst (snd v) < maxDepth options \<and> fst (snd w) = Suc (fst (snd v))
      \<and> list_ex (\<lambda>link. reaches U allowedDomain (fst v) link (fst w)) (links (snd (snd v))))"

text \<open>
  \<open>link_path U a options start vs u d\<close>: a path of \<open>d\<close> links leads from \<open>start\<close> to \<open>u\<close>
  through pages analyzed in \<open>vs\<close>, each dequeued at a depth below \<open>maxDepth\<close>.
\<close>

inductive link_path ::
  "url_api \<Rightarrow> string \<Rightarrow> CrawlOptions \<Rightarrow> string \<Rightarrow> (string \<times> nat \<times> PageAnalysis) list
     \<Rightarrow> string \<Rightarrow> nat \<Rightarrow> bool"
  for U :: url_api and a :: string and options :: CrawlOptions and start :: string
    and vs :: "(string \<times> nat \<times> PageAnalysis) list" where
  path_start: "link_path U a options start vs start 0"
| path_step:
    "link_path U a options start vs (fst v) (fst (snd v)) \<Longrightarrow> v \<in> set vs \<Longrightarrow>
     fst (snd v) < maxDepth options \<Longrightarrow> link \<in> set (links (snd (snd v))) \<Longrightarrow>
     reaches U a (fst v) link u \<Longrightarrow> link_path U a options start vs u (Suc (fst (snd v)))"

text \<open>The host the crawl is confined to: \<open>new URL(startUrl).hostname\<close>.\<close>

definition allowedDomain_of :: "url_api \<Rightarrow> string \<Rightarrow> string" where
  "allowedDomain_of U startUrl = (case U startUrl None of None \<Rightarrow> [] | Some obj \<Rightarrow> hostname obj)"

section \<open>Example inputs\<close>

subsection \<open>Texts\<close>

text \<open>
  A text of 520 words in 14 sentence pieces with 637 syllables: thirteen sentences of one
  word, then 390 words of one syllable and 117 of two.
\<close>

definition tie_text :: string where
  "tie_text =
     concat (replicate 13 ''go. '') @ concat (replicate 390 ''go '')
       @ concat (replicate 116 ''baby '') @ ''baby''"

subsection \<open>Pages\<close>

text \<open>A viewport at which nothing overflows.\<close>

definition quiet_viewport :: vp_env where
  "quiet_viewport =
     \<lparr> vp_setViewport = None,
       vp_evaluate = Inr \<lparr> m_horizontalScroll = False, m_overflowingElements = 0,
                          m_smallTapTargets = 0, m_offendingElements = [] \<rparr>,
       vp_now = 1700000000400, vp_cwd = None, vp_screenshot = None \<rparr>"

text \<open>A viewport at which one element overflows and the screenshot cannot be written.\<close>

definition overflowing_viewport :: vp_env where
  "overflowing_viewport =
     \<lparr> vp_setViewport = None,
       vp_evaluate = Inr \<lparr> m_horizontalScroll = True, m_overflowingElements = 1,
                          m_smallTapTargets = 0, m_offendingElements = [''div.hero''] \<rparr>,
       vp_now = 1700000000400, vp_cwd = None,
       vp_screenshot = Some (JsError ''Error'' ''EACCES: permission denied, mkdir'') \<rparr>"

text \<open>The facts of a small document with the body text \<open>body\<close> and the links \<open>ls\<close>.\<close>

definition example_static :: "string \<Rightarrow> string list \<Rightarrow> staticAnalysis_t" where
  "example_static body ls =
     \<lparr> s_title = ''Example Domain'', s_metaDesc = [], s_h1 = Some ''Example Domain'',
       s_missingAltTags = 0, s_emptyLinks = 0, s_hasViewport = True, s_h1Count = 1,
       s_imagesMissingDimensions = 0, s_textContent = body, s_links = ls,
       s_hasSchema = False, s_structureCount = 0, s_paragraphCount = 1,
       s_headings = [\<lparr> h_tag = ''H1'', h_text = ''Example Domain'' \<rparr>],
       s_longParagraphs = 0, s_htmlSize = 1256, s_schemaTypes = [],
       s_hasAuthor = False, s_hasDate = False \<rparr>"

definition example_page ::
  "js_exn + http_response option \<Rightarrow> js_exn + staticAnalysis_t \<Rightarrow> (viewport_name \<Rightarrow> vp_env)
     \<Rightarrow> page_env" where
  "example_page nav st sw =
     \<lparr> now_start = 1700000000000, now_end = 1700000000250, setViewport0 = None,
       goto = nav, evaluate_static = st, sweep_env = sw, engine_sort = (\<lambda>xs. xs) \<rparr>"

definition response_200 :: "js_exn + http_response option" where
  "response_200 = Inr (Some \<lparr> status = 200, ok = True \<rparr>)"

text \<open>A page that answers 404.\<close>

definition page_404 :: page_env where
  "page_404 =
     example_page (Inr (Some \<lparr> status = 404, ok = False \<rparr>)) (Inl JsThrown)
       (\<lambda>n. quiet_viewport)"

text \<open>A page whose load runs into the timeout and that can be analyzed all the same.\<close>

definition page_timeout :: page_env where
  "page_timeout =
     example_page (Inl (JsError ''TimeoutError'' ''Navigation timeout of 30000 ms exceeded''))
       (Inr (example_static ''Example Domain'' [])) (\<lambda>n. quiet_viewport)"

text \<open>A page that loads, overflows on every viewport, and whose screenshots fail.\<close>

definition page_screenshot_fails :: page_env where
  "page_screenshot_fails =
     example_page response_200 (Inr (example_static ''Example Domain'' []))
       (\<lambda>n. overflowing_viewport)"

text \<open>
  A page that loads and overflows while the working directory of the process is gone.
\<close>

definition page_cwd_gone :: page_env where
  "page_cwd_gone =
     example_page response_200 (Inr (example_static ''Example Domain'' []))
       (\<lambda>n. overflowing_viewport
          \<lparr> vp_cwd := Some (JsError ''Error'' ''ENOENT: no such file or directory, uv_cwd'') \<rparr>)"

text \<open>A page that loads and whose extraction throws.\<close>

definition page_crash :: page_env where
  "page_crash =
     example_page response_200 (Inl (JsError ''Error'' ''Execution context was destroyed''))
       (\<lambda>n. quiet_viewport)"


subsection \<open>Sites\<close>

text \<open>
  The platform's URL parser on the URLs of the examples, as a table: each row is what
  \<open>new URL\<close> gives for that input (all are absolute, so the base does not matter); an input
  outside the table, such as \<open>http://[bad\<close>, is rejected.
\<close>

definition example_URL :: url_api where
  "example_URL input base =
     (if input \<in> set [''https://example.com/'', ''https://example.com/#top'',
                       ''https://example.com/about'', ''https://example.com/about#team'',
                       ''https://example.com/team'']
      then Some \<lparr> href = input, hostname = ''example.com'', protocol = ''https:'' \<rparr>
      else if input = ''https://other.org/''
      then Some \<lparr> href = input, hostname = ''other.org'', protocol = ''https:'' \<rparr>
      else if input = ''https://sub.example.com/''
      then Some \<lparr> href = input, hostname = ''sub.example.com'', protocol = ''https:'' \<rparr>
      else if input = ''mailto:hi@example.com''
      then Some \<lparr> href = input, hostname = [], protocol = ''mailto:'' \<rparr>
      else None)"

text \<open>A browser in which nothing fails, showing the pages \<open>pages\<close>.\<close>

definition example_browser :: "(string \<Rightarrow> page_env) \<Rightarrow> crawl_env" where
  "example_browser pages =
     \<lparr> launch = None, newPage = (\<lambda>n. None), page_of = (\<lambda>n. pages),
       closePage = (\<lambda>n. None), closeBrowser = None \<rparr>"

text \<open>
  A one-page site whose page links to its own top (\<open>#top\<close>) and to its home (\<open>/\<close>); the
  \<open>href\<close> of an anchor is absolute.
\<close>

definition fragment_site :: crawl_env where
  "fragment_site =
     example_browser (\<lambda>u. example_page response_200
       (Inr (example_static [] [''https://example.com/#top'', ''https://example.com/''])) 
       (\<lambda>n. quiet_viewport))"

text \<open>
  A site whose home links to a page of its own, to another host, to a subdomain, to a
  malformed URL and to a mail address; the page of its own links on to a third page.
\<close>

definition small_site :: crawl_env where
  "small_site =
     example_browser (\<lambda>u. example_page response_200
       (Inr (example_static []
          (if u = ''https://example.com/''
           then [''https://example.com/about#team'', ''https://other.org/'', ''http://[bad'',
                 ''mailto:hi@example.com'', ''https://sub.example.com/'']
           else if u = ''https://example.com/about''
           then [''https://example.com/team'', ''https://example.com/'']
           else [])))
       (\<lambda>n. quiet_viewport))"

section \<open>Properties of the content scoring\<close>

subsection \<open>Rounding to a double\<close>

text \<open>The exponent brackets a positive number between two powers of 2.\<close>

lemma expo_bounds:
  assumes "0 < x"
  shows "2 powi (expo x) \<le> x \<and> x < 2 powi (expo x + 1)"
proof -
  obtain p q where pq: "quotient_of x = (p, q)" by (cases "quotient_of x")
  then have q: "0 < q" by (rule quotient_of_denom_pos)
  have x: "x = of_int p / of_int q" using pq by (rule quotient_of_div)
  have p: "0 < p" using assms q x by (simp add: zero_less_divide_iff)
  define bp where "bp = bitlen p"
  define bq where "bq = bitlen q"
  have bp1: "1 \<le> bp" and bq1: "1 \<le> bq"
    using p q by (auto simp: bp_def bq_def bitlen_alt_def)
  from bitlen_bounds [OF p] have "2 ^ nat (bp - 1) \<le> p" and "p < 2 ^ nat bp"
    by (simp_all add: bp_def)
  then have "(of_int (2 ^ nat (bp - 1)) :: rat) \<le> of_int p"
    and "(of_int p :: rat) < of_int (2 ^ nat bp)"
    by (simp_all only: of_int_le_iff of_int_less_iff)
  then have pl: "(2::rat) powi (bp - 1) \<le> of_int p" and pu: "of_int p < (2::rat) powi bp"
    using bp1 by (simp_all add: power_int_nonneg_exp)
  from bitlen_bounds [OF q] have "2 ^ nat (bq - 1) \<le> q" and "q < 2 ^ nat bq"
    by (simp_all add: bq_def)
  then have "(of_int (2 ^ nat (bq - 1)) :: rat) \<le> of_int q"
    and "(of_int q :: rat) < of_int (2 ^ nat bq)"
    by (simp_all only: of_int_le_iff of_int_less_iff)
  then have ql: "(2::rat) powi (bq - 1) \<le> of_int q" and qu: "of_int q < (2::rat) powi bq"
    using bq1 by (simp_all add: power_int_nonneg_exp)
  have q0: "(0::rat) < of_int q" using q by simp
  have low: "(2::rat) powi (bp - bq - 1) \<le> x"
  proof -
    have "(2::rat) powi (bp - bq - 1) * of_int q \<le> 2 powi (bp - bq - 1) * 2 powi bq"
      using qu by (intro mult_left_mono) simp_all
    also have "\<dots> = 2 powi (bp - 1)" by (simp add: power_int_add [symmetric])
    also have "\<dots> \<le> of_int p" by (rule pl)
    finally show ?thesis using q0 by (simp add: x pos_le_divide_eq)
  qed
  have up: "x < (2::rat) powi (bp - bq + 1)"
  proof -
    have "of_int p < (2::rat) powi bp" by (rule pu)
    also have "\<dots> = 2 powi (bp - bq + 1) * 2 powi (bq - 1)" by (simp add: power_int_add [symmetric])
    also have "\<dots> \<le> 2 powi (bp - bq + 1) * of_int q"
      using ql by (intro mult_left_mono) simp_all
    finally show ?thesis using q0 by (simp add: x pos_divide_less_eq)
  qed
  show ?thesis
  proof (cases "(2::rat) powi (bp - bq) \<le> x")
    case True
    then show ?thesis using up by (simp add: expo_def pq bp_def bq_def Let_def)
  next
    case False
    then have "expo x = bp - bq - 1" by (simp add: expo_def pq bp_def bq_def Let_def)
    then show ?thesis using low False by simp
  qed
qed

lemma round_even_bounds: "of_int (round_even z) \<le> z + 1 / 2 \<and> z - 1 / 2 \<le> of_int (round_even z)"
proof -
  have f: "of_int \<lfloor>z\<rfloor> \<le> z" and g: "z < of_int \<lfloor>z\<rfloor> + 1" by linarith+
  consider "z - of_int \<lfloor>z\<rfloor> < 1 / 2" | "1 / 2 < z - of_int \<lfloor>z\<rfloor>"
    | "z - of_int \<lfloor>z\<rfloor> = 1 / 2" by linarith
  then show ?thesis
  proof cases
    case 1
    then have "round_even z = \<lfloor>z\<rfloor>" by (simp add: round_even_def Let_def)
    then show ?thesis using f 1 by linarith
  next
    case 2
    then have "round_even z = \<lfloor>z\<rfloor> + 1" by (simp add: round_even_def Let_def)
    then show ?thesis using g 2 by simp
  next
    case 3
    then have "round_even z = \<lfloor>z\<rfloor> \<or> round_even z = \<lfloor>z\<rfloor> + 1"
      by (simp add: round_even_def Let_def)
    then show ?thesis using 3 by auto
  qed
qed

lemma round_even_ge: "of_int k \<le> z \<Longrightarrow> k \<le> round_even z"
proof -
  assume "of_int k \<le> z"
  then have "k \<le> \<lfloor>z\<rfloor>" by (simp add: le_floor_iff)
  then show ?thesis by (auto simp: round_even_def Let_def)
qed

lemma round_even_le: "z \<le> of_int k \<Longrightarrow> round_even z \<le> k"
proof -
  assume a: "z \<le> of_int k"
  show ?thesis
  proof (cases "z = of_int k")
    case True
    then show ?thesis by (simp add: round_even_def)
  next
    case False
    with a have "z < of_int k" by simp
    then have "\<lfloor>z\<rfloor> < k" by (simp add: floor_less_iff)
    then show ?thesis by (auto simp: round_even_def Let_def)
  qed
qed

lemma powi_shift: "(2::rat) ^ n * 2 powi (e - int n) = 2 powi e"
proof -
  have "(2::rat) powi e = 2 powi ((e - int n) + int n)" by simp
  also have "\<dots> = 2 powi (e - int n) * 2 powi (int n)" by (rule power_int_add) simp
  also have "(2::rat) powi (int n) = 2 ^ n" by (rule power_int_of_nat)
  finally show ?thesis by (simp add: mult.commute)
qed

lemma fl_pos_cases:
  assumes "0 < x"
  shows "fl x = PosInf \<or> (\<exists>r. fl x = Fin r \<and> 0 \<le> r)"
proof -
  define q :: rat where "q = 2 powi (max (expo \<bar>x\<bar>) (- 1022) - 52)"
  have q: "0 < q" by (simp add: q_def)
  have "0 \<le> \<bar>x\<bar> / q" using q by simp
  then have "0 \<le> round_even (\<bar>x\<bar> / q)" using round_even_ge [of 0 "\<bar>x\<bar> / q"] by simp
  then have "0 \<le> (of_int (round_even (\<bar>x\<bar> / q)) :: rat) * q" using q by simp
  then show ?thesis using assms by (auto simp: fl_def Let_def q_def)
qed

text \<open>Below \<open>2 powi 1023\<close> nothing overflows.\<close>

lemma fl_finite:
  assumes "0 < x" and "x < 2 powi 1023"
  shows "\<exists>r. fl x = Fin r"
proof -
  define e where "e = max (expo x) (- 1022)"
  define q :: rat where "q = 2 powi (e - 52)"
  have q: "0 < q" by (simp add: q_def)
  from expo_bounds [OF assms(1)] have lo: "2 powi (expo x) \<le> x" and hi: "x < 2 powi (expo x + 1)"
    by simp_all
  from lo assms(2) have "(2::rat) powi (expo x) < 2 powi 1023" by simp
  then have "expo x < 1023"
    using power_int_increasing [of 1023 "expo x" "2::rat"] by (cases "expo x < 1023") simp_all
  then have e: "e \<le> 1022" by (simp add: e_def)
  have "x < 2 powi (e + 1)"
  proof -
    have "(2::rat) powi (expo x + 1) \<le> 2 powi (e + 1)"
      by (intro power_int_increasing) (simp_all add: e_def)
    with hi show ?thesis by simp
  qed
  also have s53: "(2::rat) powi (e + 1) = 2 ^ 53 * q"
    using powi_shift [of 53 "e + 1"] by (simp add: q_def)
  finally have "x / q \<le> of_int (2 ^ 53)" using q by (simp add: pos_divide_le_eq)
  then have "round_even (x / q) \<le> 2 ^ 53" by (rule round_even_le)
  then have "(of_int (round_even (x / q)) :: rat) \<le> 2 ^ 53"
    by (metis of_int_le_iff of_int_numeral of_int_power)
  then have "of_int (round_even (x / q)) * q \<le> 2 ^ 53 * q" using q by simp
  also have "2 ^ 53 * q = 2 powi (e + 1)" using s53 by simp
  also have "\<dots> \<le> 2 powi 1023" using e by (intro power_int_increasing) simp_all
  also have "\<dots> < (2::rat) ^ 1024" by simp
  finally have "\<not> 2 ^ 1024 \<le> (of_int (round_even (x / q)) :: rat) * q" by simp
  then show ?thesis using assms(1)
    by (simp add: fl_def Let_def q_def e_def)
qed

text \<open>From 1 on nothing is rounded below 1.\<close>

lemma fl_ge_one:
  assumes "1 \<le> x"
  shows "fl x = PosInf \<or> (\<exists>r. fl x = Fin r \<and> 1 \<le> r)"
proof -
  have x0: "0 < x" using assms by simp
  from expo_bounds [OF x0] have lo: "2 powi (expo x) \<le> x" and hi: "x < 2 powi (expo x + 1)"
    by simp_all
  from hi assms have "(2::rat) powi 0 < 2 powi (expo x + 1)" by simp
  then have e0: "0 \<le> expo x"
    using power_int_increasing [of "expo x + 1" 0 "2::rat"] by (cases "0 \<le> expo x") simp_all
  define q :: rat where "q = 2 powi (expo x - 52)"
  have q: "0 < q" by (simp add: q_def)
  have m: "max (expo x) (- 1022) = expo x" using e0 by simp
  have "(2::rat) ^ 52 * q = 2 powi (expo x)"
    using powi_shift [of 52 "expo x"] by (simp add: q_def)
  with lo have "of_int (2 ^ 52) \<le> x / q" using q by (simp add: pos_le_divide_eq)
  then have "2 ^ 52 \<le> round_even (x / q)" by (rule round_even_ge)
  then have "(2::rat) ^ 52 \<le> of_int (round_even (x / q))"
    by (metis of_int_le_iff of_int_numeral of_int_power)
  then have "2 ^ 52 * q \<le> of_int (round_even (x / q)) * q" using q by simp
  moreover have "(1::rat) \<le> 2 ^ 52 * q"
    unfolding \<open>(2::rat) ^ 52 * q = 2 powi (expo x)\<close> using e0 by simp
  ultimately have "1 \<le> (of_int (round_even (x / q)) :: rat) * q" by (rule order_trans [rotated])
  then show ?thesis using x0 by (auto simp: fl_def Let_def m q_def)
qed

lemma fl_not_NaN: "fl x \<noteq> NaN"
  by (simp add: fl_def Let_def)

lemma expo_eq:
  assumes "2 powi e \<le> x" and "x < 2 powi (e + 1)"
  shows "expo x = e"
proof -
  have "(0::rat) < 2 powi e" by simp
  with assms(1) have x: "0 < x" by linarith
  from expo_bounds [OF x] have lo: "2 powi (expo x) \<le> x" and hi: "x < 2 powi (expo x + 1)"
    by simp_all
  from lo assms(2) have "(2::rat) powi (expo x) < 2 powi (e + 1)" by (rule le_less_trans)
  then have "expo x < e + 1"
    using power_int_increasing [of "e + 1" "expo x" "2::rat"] by (cases "expo x < e + 1") simp_all
  moreover from assms(1) hi have "(2::rat) powi e < 2 powi (expo x + 1)" by (rule le_less_trans)
  then have "e < expo x + 1"
    using power_int_increasing [of "expo x + 1" e "2::rat"] by (cases "e < expo x + 1") simp_all
  ultimately show ?thesis by simp
qed

lemma round_even_eq:
  assumes "of_int n - 1 / 2 < z" and "z < of_int n + 1 / 2"
  shows "round_even z = n"
proof -
  from round_even_bounds [of z]
  have "of_int (round_even z) \<le> z + 1 / 2" and "z - 1 / 2 \<le> of_int (round_even z)"
    by simp_all
  with assms have "(of_int (round_even z) :: rat) < of_int n + 1"
    and "(of_int n :: rat) < of_int (round_even z) + 1" by linarith+
  then have "round_even z < n + 1" and "n < round_even z + 1"
    by (metis of_int_1 of_int_add of_int_less_iff)+
  then show ?thesis by simp
qed

lemma round_even_eqI:
  assumes lo: "of_int n - 1 / 2 \<le> z" and hi: "z \<le> of_int n + 1 / 2"
    and tie: "z = of_int n - 1 / 2 \<or> z = of_int n + 1 / 2 \<longrightarrow> even n"
  shows "round_even z = n"
proof -
  consider "z = of_int n - 1 / 2" | "z = of_int n + 1 / 2"
    | "of_int n - 1 / 2 < z" "z < of_int n + 1 / 2"
    using lo hi by fastforce
  then show ?thesis
  proof cases
    case 1
    have f: "\<lfloor>z\<rfloor> = n - 1" unfolding 1 by (rule floor_unique) simp_all
    have "z - of_int \<lfloor>z\<rfloor> = 1 / 2" unfolding f using 1 by simp
    moreover have "odd (n - 1)" using tie 1 by simp
    ultimately show ?thesis using f by (simp add: round_even_def Let_def)
  next
    case 2
    have f: "\<lfloor>z\<rfloor> = n" unfolding 2 by (rule floor_unique) simp_all
    have "z - of_int \<lfloor>z\<rfloor> = 1 / 2" unfolding f using 2 by simp
    moreover have "even n" using tie 2 by simp
    ultimately show ?thesis using f by (simp add: round_even_def Let_def)
  next
    case 3
    then show ?thesis by (rule round_even_eq)
  qed
qed

text \<open>
  How a positive number in the normal range is rounded: with \<open>k\<close> such that \<open>x * 2 ^ k\<close>
  has 53 bits, to \<open>round_even (x * 2 ^ k)\<close> over \<open>2 ^ k\<close>.
\<close>

lemma fl_small:
  assumes k: "k \<le> 1074" and lo: "(2::rat) ^ 52 \<le> x * 2 ^ k" and hi: "x * 2 ^ k < 2 ^ 53"
    and n1: "of_int n - 1 / 2 \<le> x * 2 ^ k" and n2: "x * 2 ^ k \<le> of_int n + 1 / 2"
    and tie: "x * 2 ^ k = of_int n - 1 / 2 \<or> x * 2 ^ k = of_int n + 1 / 2 \<longrightarrow> even n"
  shows "fl x = Fin (of_int n / 2 ^ k)"
proof -
  have r: "round_even (x * 2 ^ k) = n" using n1 n2 tie by (rule round_even_eqI)
  define e where "e = 52 - int k"
  have p: "(2::rat) powi (- int k) = 1 / 2 ^ k"
    by (simp add: power_int_minus field_simps)
  have s52: "(2::rat) powi e = 2 ^ 52 / 2 ^ k"
    using powi_shift [of 52 e] by (simp add: e_def p)
  have s53: "(2::rat) powi (e + 1) = 2 ^ 53 / 2 ^ k"
    using powi_shift [of 53 "e + 1"] by (simp add: e_def p)
  have "(2::rat) powi e \<le> x" unfolding s52 using lo by (simp add: pos_divide_le_eq)
  moreover have "x < (2::rat) powi (e + 1)" unfolding s53 using hi by (simp add: pos_less_divide_eq)
  ultimately have ex: "expo x = e" by (rule expo_eq)
  have "(0::rat) < 2 ^ 52" by simp
  with lo have "0 < x * 2 ^ k" by linarith
  then have x: "0 < x" by (simp add: zero_less_mult_iff)
  have m: "max e (- 1022) = e" using k by (simp add: e_def)
  have q: "(2::rat) powi (e - 52) = 1 / 2 ^ k" using p by (simp add: e_def)
  have "x * 2 ^ k \<le> of_int (2 ^ 53)" using hi by simp
  then have "round_even (x * 2 ^ k) \<le> 2 ^ 53" by (rule round_even_le)
  then have "(of_int n :: rat) \<le> of_int (2 ^ 53)" unfolding r by (simp only: of_int_le_iff)
  then have n: "(of_int n :: rat) \<le> 2 ^ 53" by simp
  have "(of_int n :: rat) / 2 ^ k \<le> of_int n"
  proof (cases "0 \<le> n")
    case True
    have "(of_int n :: rat) * 1 \<le> of_int n * 2 ^ k"
      using True by (intro mult_left_mono) simp_all
    then show ?thesis by (simp add: pos_divide_le_eq)
  next
    case False
    have "(0::rat) \<le> 2 ^ 52" by simp
    with lo have "0 \<le> x * 2 ^ k" by linarith
    then have "0 \<le> round_even (x * 2 ^ k)" using round_even_ge [of 0 "x * 2 ^ k"] by simp
    with False r show ?thesis by simp
  qed
  moreover have "(2::rat) ^ 53 < 2 ^ 1024" by simp
  ultimately have "\<not> 2 ^ 1024 \<le> (of_int n :: rat) / 2 ^ k" using n by linarith
  then show ?thesis using x by (simp add: fl_def Let_def ex m q r)
qed

lemma fl_206_835: "fl 206.835 = Fin (7277359600993567 / 35184372088832)"
  using fl_small [of 45 "206.835" 7277359600993567] by simp

lemma fl_1_015: "fl 1.015 = Fin (4571153621781053 / 4503599627370496)"
  using fl_small [of 52 "1.015" 4571153621781053] by simp

lemma fl_84_6: "fl 84.6 = Fin (2976597878715187 / 35184372088832)"
  using fl_small [of 46 "84.6" 5953195757430374] by simp

lemma js_round_eq:
  "of_int n - 1 / 2 \<le> r \<Longrightarrow> r < of_int n + 1 / 2 \<Longrightarrow> js_round (Fin r) = Fin (of_int n)"
  by (simp add: js_round_def) (rule floor_unique, simp_all)

lemma fl_nonneg_cases:
  assumes "0 \<le> x"
  shows "fl x = PosInf \<or> (\<exists>r. fl x = Fin r \<and> 0 \<le> r)"
proof (cases "x = 0")
  case True
  then show ?thesis by (simp add: fl_def)
next
  case False
  with assms have "0 < x" by simp
  then show ?thesis by (rule fl_pos_cases)
qed

lemma fl_nonpos_cases: "x \<le> 0 \<Longrightarrow> fl x = NegInf \<or> (\<exists>r. fl x = Fin r)"
  by (simp add: fl_def Let_def)

lemma js_mul_nonneg:
  assumes c: "0 < c" and A: "A = PosInf \<or> (\<exists>a. A = Fin a \<and> 0 \<le> a)"
  shows "js_mul (Fin c) A = PosInf \<or> (\<exists>m. js_mul (Fin c) A = Fin m \<and> 0 \<le> m)"
  using A
proof
  assume "A = PosInf"
  then show ?thesis using c by (simp add: inf_times_def)
next
  assume "\<exists>a. A = Fin a \<and> 0 \<le> a"
  then obtain a where a: "A = Fin a" "0 \<le> a" by blast
  then have "0 \<le> c * a" using c by simp
  then show ?thesis unfolding a by (simp add: fl_nonneg_cases)
qed

lemma js_sub_nonneg:
  assumes c: "c < 2 powi 1023" and M: "M = PosInf \<or> (\<exists>m. M = Fin m \<and> 0 \<le> m)"
  shows "js_sub (Fin c) M = NegInf \<or> (\<exists>d. js_sub (Fin c) M = Fin d)"
  using M
proof
  assume "M = PosInf"
  then show ?thesis by (simp add: js_sub_def js_neg_def)
next
  assume "\<exists>m. M = Fin m \<and> 0 \<le> m"
  then obtain m where m: "M = Fin m" "0 \<le> m" by blast
  have "fl (c - m) = NegInf \<or> (\<exists>d. fl (c - m) = Fin d)"
  proof (cases "0 < c - m")
    case True
    moreover have "c - m < 2 powi 1023" using c m(2) by linarith
    ultimately show ?thesis by (simp add: fl_finite)
  next
    case False
    then show ?thesis by (simp add: fl_nonpos_cases)
  qed
  then show ?thesis unfolding m by (simp add: js_sub_def js_neg_def)
qed

lemma js_sub_not_NaN:
  assumes D: "D = NegInf \<or> (\<exists>d. D = Fin d)" and M: "M = PosInf \<or> (\<exists>m. M = Fin m \<and> 0 \<le> m)"
  shows "js_sub D M \<noteq> NaN"
  using D M by (auto simp: js_sub_def js_neg_def fl_not_NaN)

lemma clamp_round:
  assumes "E \<noteq> NaN"
  shows "\<exists>k. js_min 100 (js_max 0 (js_round E)) = Fin (of_int k) \<and> 0 \<le> k \<and> k \<le> 100"
proof (cases E)
  case (Fin e)
  define k where "k = min 100 (max 0 \<lfloor>e + 1 / 2\<rfloor>)"
  have "js_min 100 (js_max 0 (js_round E)) = Fin (of_int k)"
    by (simp add: Fin k_def js_round_def js_max_def js_min_def min_def max_def)
  moreover have "0 \<le> k" "k \<le> 100" by (simp_all add: k_def)
  ultimately show ?thesis by blast
next
  case PosInf
  then have "js_min 100 (js_max 0 (js_round E)) = Fin (of_int 100)"
    by (simp add: js_round_def js_max_def js_min_def)
  then show ?thesis by (intro exI [of _ 100]) simp
next
  case NegInf
  then have "js_min 100 (js_max 0 (js_round E)) = Fin (of_int 0)"
    by (simp add: js_round_def js_max_def js_min_def)
  then show ?thesis by (intro exI [of _ 0]) simp
next
  case NaN
  with assms show ?thesis by simp
qed

lemma flesch_range:
  assumes A: "A = PosInf \<or> (\<exists>a. A = Fin a \<and> 0 \<le> a)"
    and B: "B = PosInf \<or> (\<exists>b. B = Fin b \<and> 0 \<le> b)"
  shows "\<exists>k. js_min 100 (js_max 0 (js_round
            (js_sub (js_sub (fl 206.835) (js_mul (fl 1.015) A)) (js_mul (fl 84.6) B))))
          = Fin (of_int k) \<and> 0 \<le> k \<and> k \<le> 100"
proof -
  have "js_mul (Fin (4571153621781053 / 4503599627370496)) A = PosInf
      \<or> (\<exists>m. js_mul (Fin (4571153621781053 / 4503599627370496)) A = Fin m \<and> 0 \<le> m)"
    using A by (intro js_mul_nonneg) simp_all
  then have M1: "js_mul (fl 1.015) A = PosInf \<or> (\<exists>m. js_mul (fl 1.015) A = Fin m \<and> 0 \<le> m)"
    by (simp only: fl_1_015)
  have "js_mul (Fin (2976597878715187 / 35184372088832)) B = PosInf
      \<or> (\<exists>m. js_mul (Fin (2976597878715187 / 35184372088832)) B = Fin m \<and> 0 \<le> m)"
    using B by (intro js_mul_nonneg) simp_all
  then have M2: "js_mul (fl 84.6) B = PosInf \<or> (\<exists>m. js_mul (fl 84.6) B = Fin m \<and> 0 \<le> m)"
    by (simp only: fl_84_6)
  have "(7277359600993567 / 35184372088832 :: rat) < 2 ^ 1023" by simp
  then have "(7277359600993567 / 35184372088832 :: rat) < 2 powi 1023" by simp
  then have "js_sub (Fin (7277359600993567 / 35184372088832)) (js_mul (fl 1.015) A) = NegInf
      \<or> (\<exists>d. js_sub (Fin (7277359600993567 / 35184372088832)) (js_mul (fl 1.015) A) = Fin d)"
    using M1 by (rule js_sub_nonneg)
  then have D: "js_sub (fl 206.835) (js_mul (fl 1.015) A) = NegInf
      \<or> (\<exists>d. js_sub (fl 206.835) (js_mul (fl 1.015) A) = Fin d)"
    by (simp only: fl_206_835)
  from D M2 have "js_sub (js_sub (fl 206.835) (js_mul (fl 1.015) A)) (js_mul (fl 84.6) B) \<noteq> NaN"
    by (rule js_sub_not_NaN)
  then show ?thesis by (rule clamp_round)
qed

text \<open>
  520 words in 14 sentences with 637 syllables: the sentence length 520 / 14 and the
  two products are rounded, the second difference comes out just below 65.5, where the
  exact value of the formula is 65.5.
\<close>

lemma flesch_520_14_637:
  "js_min 100 (js_max 0 (js_round
     (js_sub (js_sub (fl 206.835) (js_mul (fl 1.015) (fl (520 / 14))))
             (js_mul (fl 84.6) (fl (637 / 520))))))
     = Fin 65"
proof -
  have a:
    "fl (520 / 14)
       = Fin (5227392424626469 / 140737488355328)"
    using fl_small
      [of 47 "520 / 14"
         5227392424626469]
    by simp
  have b:
    "fl (637 / 520)
       = Fin (2758454771764429 / 2251799813685248)"
    using fl_small
      [of 52 "637 / 520"
         5516909543528858]
    by simp
  have m1:
    "fl (4571153621781053 / 4503599627370496 * (5227392424626469 / 140737488355328))
       = Fin (2652901655497933 / 70368744177664)"
    using fl_small
      [of 47 "4571153621781053 / 4503599627370496 * (5227392424626469 / 140737488355328)"
         5305803310995866]
    by simp
  have m2:
    "fl (2976597878715187 / 35184372088832 * (2758454771764429 / 2251799813685248))
       = Fin (7292664802852209 / 70368744177664)"
    using fl_small
      [of 46 "2976597878715187 / 35184372088832 * (2758454771764429 / 2251799813685248)"
         7292664802852209]
    by simp
  have d:
    "fl (7277359600993567 / 35184372088832 - 2652901655497933 / 70368744177664)
       = Fin (743863596655575 / 4398046511104)"
    using fl_small
      [of 45 "7277359600993567 / 35184372088832 - 2652901655497933 / 70368744177664"
         5950908773244600]
    by simp
  have e:
    "fl (743863596655575 / 4398046511104 - 7292664802852209 / 70368744177664)
       = Fin (4609152743636991 / 70368744177664)"
    using fl_small
      [of 46 "743863596655575 / 4398046511104 - 7292664802852209 / 70368744177664"
         4609152743636991]
    by simp
  show ?thesis
    using fl_206_835 fl_1_015 fl_84_6 a b m1 m2 d e
      js_round_eq [of 65 "4609152743636991 / 70368744177664"]
    by (simp add: js_sub_def js_neg_def js_max_def js_min_def)
qed

text \<open>One word in one sentence with two syllables: just above 36.62.\<close>

lemma flesch_1_1_2:
  "js_min 100 (js_max 0 (js_round
     (js_sub (js_sub (fl 206.835) (js_mul (fl 1.015) (fl (1 / 1))))
             (js_mul (fl 84.6) (fl (2 / 1))))))
     = Fin 37"
proof -
  have a:
    "fl (1 / 1)
       = Fin 1"
    using fl_small
      [of 52 "1 / 1"
         4503599627370496]
    by simp
  have b:
    "fl (2 / 1)
       = Fin 2"
    using fl_small
      [of 51 "2 / 1"
         4503599627370496]
    by simp
  have m1:
    "fl (4571153621781053 / 4503599627370496 * 1)
       = Fin (4571153621781053 / 4503599627370496)"
    using fl_small
      [of 52 "4571153621781053 / 4503599627370496 * 1"
         4571153621781053]
    by simp
  have m2:
    "fl (2976597878715187 / 35184372088832 * 2)
       = Fin (2976597878715187 / 17592186044416)"
    using fl_small
      [of 45 "2976597878715187 / 35184372088832 * 2"
         5953195757430374]
    by simp
  have d:
    "fl (7277359600993567 / 35184372088832 - 4571153621781053 / 4503599627370496)
       = Fin (7241647463323403 / 35184372088832)"
    using fl_small
      [of 45 "7277359600993567 / 35184372088832 - 4571153621781053 / 4503599627370496"
         7241647463323403]
    by simp
  have e:
    "fl (7241647463323403 / 35184372088832 - 2976597878715187 / 17592186044416)
       = Fin (1288451705893029 / 35184372088832)"
    using fl_small
      [of 47 "7241647463323403 / 35184372088832 - 2976597878715187 / 17592186044416"
         5153806823572116]
    by simp
  show ?thesis
    using fl_206_835 fl_1_015 fl_84_6 a b m1 m2 d e
      js_round_eq [of 37 "1288451705893029 / 35184372088832"]
    by (simp add: js_sub_def js_neg_def js_max_def js_min_def)
qed

subsection \<open>Splitting and counting\<close>

lemma split_runs_ne: "split_runs sep s \<noteq> []"
  by (subst split_runs.simps) (simp add: Let_def)

lemma split_runs_length: "1 \<le> length (split_runs sep s)"
  using split_runs_ne [of sep s] by (cases "split_runs sep s") simp_all

lemma split_runs_empty: "split_runs sep [] = [[]]"
  by (subst split_runs.simps) simp

lemma syllables_of_pos: "1 \<le> syllables_of word"
  by (simp add: syllables_of_def Let_def)

lemma fold_syllables:
  "fold (\<lambda>word syllableCount. syllableCount + syllables_of word) ws n
     = n + sum_list (map syllables_of ws)"
  by (induction ws arbitrary: n) simp_all

lemma syllableCount_sum: "syllableCount_of ws = sum_list (map syllables_of ws)"
  by (simp add: syllableCount_of_def fold_syllables)

lemma syllableCount_ge: "length ws \<le> syllableCount_of ws"
  unfolding syllableCount_sum
proof (induction ws)
  case Nil
  show ?case by simp
next
  case (Cons w ws)
  have "1 \<le> syllables_of w" by (rule syllables_of_pos)
  with Cons show ?case by simp
qed

lemma wordCount_pos: "1 \<le> wordCount_of t"
  using split_runs_length [of is_space t] by (simp add: wordCount_of_def words_of_def)

lemma sentenceCount_pos: "1 \<le> sentenceCount_of t"
  using split_runs_length [of is_sentence_end t] by (simp add: sentenceCount_of_def Let_def)

lemma avgSentenceLength_fl:
  "avgSentenceLength_of t = fl (of_nat (wordCount_of t) / of_nat (sentenceCount_of t))"
  using sentenceCount_pos [of t] by (simp add: avgSentenceLength_of_def js_div_def)

lemma avgSentenceLength_cases:
  "avgSentenceLength_of t = PosInf \<or> (\<exists>a. avgSentenceLength_of t = Fin a \<and> 0 \<le> a)"
  unfolding avgSentenceLength_fl by (rule fl_nonneg_cases) simp

lemma syllables_per_word_fl:
  "js_div (syllableCount_of (words_of t)) (wordCount_of t)
     = fl (of_nat (syllableCount_of (words_of t)) / of_nat (wordCount_of t))"
  using wordCount_pos [of t] by (simp add: js_div_def)

lemma syllables_per_word_ge_one:
  "1 \<le> (of_nat (syllableCount_of (words_of t)) :: rat) / of_nat (wordCount_of t)"
proof -
  have w: "1 \<le> wordCount_of t" by (rule wordCount_pos)
  have y: "wordCount_of t \<le> syllableCount_of (words_of t)"
    unfolding wordCount_of_def by (rule syllableCount_ge)
  then have "(of_nat (wordCount_of t) :: rat) \<le> of_nat (syllableCount_of (words_of t))"
    by (simp only: of_nat_le_iff)
  then show ?thesis using w by (simp add: le_divide_eq)
qed

lemma syllables_per_word_cases:
  "js_div (syllableCount_of (words_of t)) (wordCount_of t) = PosInf
   \<or> (\<exists>r. js_div (syllableCount_of (words_of t)) (wordCount_of t) = Fin r \<and> 1 \<le> r)"
  unfolding syllables_per_word_fl by (rule fl_ge_one) (rule syllables_per_word_ge_one)

text \<open>Counts below \<open>2 ^ 53\<close>, the integers JavaScript counts exactly, give a finite quotient.\<close>

lemma syllables_per_word_finite:
  assumes "syllableCount_of (words_of t) < 2 ^ 53"
  shows "\<exists>r. js_div (syllableCount_of (words_of t)) (wordCount_of t) = Fin r \<and> 1 \<le> r"
proof -
  define x :: rat where "x = of_nat (syllableCount_of (words_of t)) / of_nat (wordCount_of t)"
  have w: "(1::rat) \<le> of_nat (wordCount_of t)" using wordCount_pos [of t] by simp
  have x1: "1 \<le> x" unfolding x_def by (rule syllables_per_word_ge_one)
  have "x \<le> of_nat (syllableCount_of (words_of t))"
    unfolding x_def using w by (simp add: divide_le_eq mult_le_cancel_left1)
  also have "(of_nat (syllableCount_of (words_of t)) :: rat) < of_nat (2 ^ 53)"
    using assms by (simp only: of_nat_less_iff)
  also have "(of_nat (2 ^ 53) :: rat) \<le> 2 powi 1023" by simp
  finally have "x < 2 powi 1023" .
  moreover have "0 < x" using x1 by simp
  ultimately obtain r where r: "fl x = Fin r" using fl_finite by blast
  with fl_ge_one [OF x1] have "1 \<le> r" by simp
  with r show ?thesis by (simp add: syllables_per_word_fl x_def)
qed

lemma avgSyllables_fl:
  "avgSyllablesPerWord_of t
     = fl (of_nat (syllableCount_of (words_of t)) / of_nat (wordCount_of t))"
  using syllables_per_word_cases [of t]
  by (auto simp: avgSyllablesPerWord_of_def or_one_def syllables_per_word_fl)

lemma avgSyllables_cases:
  "avgSyllablesPerWord_of t = PosInf \<or> (\<exists>b. avgSyllablesPerWord_of t = Fin b \<and> 1 \<le> b)"
  using syllables_per_word_cases [of t] by (simp add: avgSyllables_fl syllables_per_word_fl)

lemma readability_formula:
  "readabilityScore_of t =
     js_min 100 (js_max 0 (js_round
       (js_sub
          (js_sub (fl 206.835)
             (js_mul (fl 1.015)
                (fl (of_nat (wordCount_of t) / of_nat (sentenceCount_of t)))))
          (js_mul (fl 84.6)
             (fl (of_nat (syllableCount_of (words_of t)) / of_nat (wordCount_of t)))))))"
  by (simp only: readabilityScore_of_def avgSentenceLength_fl avgSyllables_fl)

lemma readability_range:
  "\<exists>k. readabilityScore_of t = Fin (of_int k) \<and> 0 \<le> k \<and> k \<le> 100"
proof -
  have "avgSyllablesPerWord_of t = PosInf \<or> (\<exists>b. avgSyllablesPerWord_of t = Fin b \<and> 0 \<le> b)"
    using avgSyllables_cases [of t] by auto
  with avgSentenceLength_cases [of t] show ?thesis
    unfolding readabilityScore_of_def by (rule flesch_range)
qed

subsection \<open>Splitting a text of repeated words\<close>

lemma split_runs_no_sep:
  assumes "\<forall>c\<in>set s. \<not> sep c"
  shows "split_runs sep s = [s]"
proof -
  have "takeWhile (\<lambda>c. \<not> sep c) s = s" and "dropWhile (\<lambda>c. \<not> sep c) s = []"
    using assms by simp_all
  then show ?thesis by (subst split_runs.simps) simp
qed

lemma split_runs_piece:
  assumes w: "\<forall>c\<in>set w. \<not> sep c" and d: "sep d" and Y: "Y \<noteq> []" "\<not> sep (hd Y)"
  shows "split_runs sep (w @ d # Y) = w # split_runs sep Y"
proof -
  have t: "takeWhile (\<lambda>c. \<not> sep c) (w @ d # Y) = w"
    using w d by (simp add: takeWhile_append2)
  have r: "dropWhile (\<lambda>c. \<not> sep c) (w @ d # Y) = d # Y"
    using w d by (simp add: dropWhile_append2)
  have "dropWhile sep (d # Y) = Y" using d Y by (cases Y) simp_all
  with t r show ?thesis by (subst split_runs.simps) simp
qed

lemma split_runs_replicate:
  assumes w: "\<forall>c\<in>set w. \<not> sep c" "w \<noteq> []" and d: "sep d" and Y: "Y \<noteq> []" "\<not> sep (hd Y)"
  shows "split_runs sep (concat (replicate n (w @ [d])) @ Y) = replicate n w @ split_runs sep Y"
proof (induction n)
  case 0
  show ?case by simp
next
  case (Suc n)
  define Z where "Z = concat (replicate n (w @ [d])) @ Y"
  have "hd Z = (if n = 0 then hd Y else hd w)"
    using w(2) by (cases n) (simp_all add: Z_def)
  moreover have "\<not> sep (hd w)" using w by (cases w) simp_all
  ultimately have Z: "Z \<noteq> []" "\<not> sep (hd Z)" using Y by (simp_all add: Z_def)
  have "concat (replicate (Suc n) (w @ [d])) @ Y = w @ d # Z" by (simp add: Z_def)
  then have "split_runs sep (concat (replicate (Suc n) (w @ [d])) @ Y) = w # split_runs sep Z"
    using split_runs_piece [OF w(1) d Z] by simp
  with Suc show ?case by (simp add: Z_def)
qed

lemma concat_replicate_hd:
  "w \<noteq> [] \<Longrightarrow> concat (replicate (Suc n) w) @ Y \<noteq> []
     \<and> hd (concat (replicate (Suc n) w) @ Y) = hd w"
  by simp

lemma split_runs_length_Cons:
  "\<not> sep c \<Longrightarrow> length (split_runs sep (c # Y)) = length (split_runs sep Y)"
  by (subst split_runs.simps, subst (2) split_runs.simps) (simp add: Let_def)

lemma tie_text_words:
  "words_of tie_text
     = replicate 13 ''go.'' @ replicate 390 ''go'' @ replicate 116 ''baby'' @ [''baby'']"
proof -
  have sp: "is_space CHR '' ''" by (simp add: is_space_def code_def)
  have go_dot: "\<forall>c\<in>set ''go.''. \<not> is_space c" by (simp add: is_space_def code_def)
  have go: "\<forall>c\<in>set ''go''. \<not> is_space c" by (simp add: is_space_def code_def)
  have baby: "\<forall>c\<in>set ''baby''. \<not> is_space c" by (simp add: is_space_def code_def)
  define Y3 where "Y3 = ''baby''"
  define Y2 where "Y2 = concat (replicate 116 (''baby'' @ '' '')) @ Y3"
  define Y1 where "Y1 = concat (replicate 390 (''go'' @ '' '')) @ Y2"
  have y3: "Y3 \<noteq> []" "\<not> is_space (hd Y3)" by (simp_all add: Y3_def is_space_def code_def)
  have y2: "Y2 \<noteq> []" "\<not> is_space (hd Y2)"
    using concat_replicate_hd [of "''baby'' @ '' ''" 115 Y3]
    by (simp_all add: Y2_def is_space_def code_def)
  have y1: "Y1 \<noteq> []" "\<not> is_space (hd Y1)"
    using concat_replicate_hd [of "''go'' @ '' ''" 389 Y2]
    by (simp_all add: Y1_def is_space_def code_def)
  have "tie_text = concat (replicate 13 (''go.'' @ '' '')) @ Y1"
    by (simp add: tie_text_def Y1_def Y2_def Y3_def)
  then have "words_of tie_text = replicate 13 ''go.'' @ split_runs is_space Y1"
    unfolding words_of_def using split_runs_replicate [OF go_dot _ sp y1, of 13] by simp
  also have "split_runs is_space Y1 = replicate 390 ''go'' @ split_runs is_space Y2"
    unfolding Y1_def using split_runs_replicate [OF go _ sp y2, of 390] by simp
  also have "split_runs is_space Y2 = replicate 116 ''baby'' @ split_runs is_space Y3"
    unfolding Y2_def using split_runs_replicate [OF baby _ sp y3, of 116] by simp
  also have "split_runs is_space Y3 = [''baby'']"
    unfolding Y3_def using baby by (rule split_runs_no_sep)
  finally show ?thesis .
qed

lemma sentence_pieces:
  "length (split_runs is_sentence_end (concat (replicate n ''go. '') @ Y))
     = n + length (split_runs is_sentence_end Y)"
proof (induction n)
  case 0
  show ?case by simp
next
  case (Suc n)
  define Z where "Z = concat (replicate n ''go. '') @ Y"
  have "split_runs is_sentence_end (''go. '' @ Z)
      = ''go'' # split_runs is_sentence_end (CHR '' '' # Z)"
    by (subst split_runs.simps) (simp add: is_sentence_end_def)
  moreover have "length (split_runs is_sentence_end (CHR '' '' # Z))
      = length (split_runs is_sentence_end Z)"
    by (rule split_runs_length_Cons) (simp add: is_sentence_end_def)
  ultimately show ?case using Suc by (simp add: Z_def)
qed

lemma tie_text_counts:
  "wordCount_of tie_text = 520" "sentenceCount_of tie_text = 14"
  "syllableCount_of (words_of tie_text) = 637"
proof -
  show "wordCount_of tie_text = 520" by (simp add: wordCount_of_def tie_text_words)
  define Y where
    "Y = concat (replicate 390 ''go '') @ concat (replicate 116 ''baby '') @ ''baby''"
  have "\<forall>c\<in>set Y. \<not> is_sentence_end c"
    by (auto simp: Y_def is_sentence_end_def split: if_splits)
  then have "split_runs is_sentence_end Y = [Y]" by (rule split_runs_no_sep)
  then have "length (split_runs is_sentence_end tie_text) = 14"
    using sentence_pieces [of 13 Y] by (simp add: tie_text_def Y_def)
  then show "sentenceCount_of tie_text = 14" by (simp add: sentenceCount_of_def)
  have "syllables_of ''go.'' = 1" "syllables_of ''go'' = 1" "syllables_of ''baby'' = 2"
    by code_simp+
  then show "syllableCount_of (words_of tie_text) = 637"
    by (simp add: syllableCount_sum tie_text_words sum_list_replicate)
qed

subsection \<open>The readability score\<close>

text \<open>
  C7, as the specification words it, fails on \<open>tie_text\<close>: 520 words, 14 sentence pieces,
  637 syllables. The value of the formula is 65.5 exactly, which rounds to 66; the program
  computes each quotient, product and difference as a double, arrives just below 65.5
  and returns 65.
\<close>

theorem readability_differs_from_formula:
  "wordCount_of tie_text = 520 \<and> sentenceCount_of tie_text = 14
   \<and> syllableCount_of (words_of tie_text) = 637
   \<and> flesch_formula 520 14 637 = 131 / 2
   \<and> readability_spec tie_text = 66
   \<and> readabilityScore_of tie_text = Fin 65"
proof -
  have f: "flesch_formula 520 14 637 = 131 / 2" by (simp add: flesch_formula_def)
  have "round (131 / 2 :: rat) = 66" by (simp add: round_def)
  then have "readability_spec tie_text = 66"
    by (simp add: readability_spec_def tie_text_counts f)
  moreover have "readabilityScore_of tie_text = Fin 65"
    using flesch_520_14_637 by (simp add: readability_formula tie_text_counts)
  ultimately show ?thesis using f by (simp add: tie_text_counts)
qed

text \<open>
  C7, amended. For every body text \<open>t\<close> the sentence count is at least 1, every word
  counts for at least one syllable, so that the syllable count is at least the word count,
  which is at least 1: neither division is by zero and neither fallback \<open>|| 1\<close> is taken.
  The readability score is the Flesch Reading Ease
  \<open>206.835 - 1.015 * (words / sentences) - 84.6 * (syllables / words)\<close> evaluated in
  double arithmetic, the three constants, the two quotients, the two products and the
  two differences each rounded to a double, then rounded to an integer and clamped: it
  is never NaN, always an integer from 0 to 100.
\<close>

theorem readabilityScore_flesch:
  "1 \<le> sentenceCount_of t \<and> 1 \<le> wordCount_of t \<and> 1 \<le> syllables_of word
   \<and> wordCount_of t \<le> syllableCount_of (words_of t)
   \<and> avgSentenceLength_of t = fl (of_nat (wordCount_of t) / of_nat (sentenceCount_of t))
   \<and> avgSyllablesPerWord_of t
       = fl (of_nat (syllableCount_of (words_of t)) / of_nat (wordCount_of t))
   \<and> readabilityScore_of t =
       js_min 100 (js_max 0 (js_round
         (js_sub
            (js_sub (fl 206.835)
               (js_mul (fl 1.015)
                  (fl (of_nat (wordCount_of t) / of_nat (sentenceCount_of t)))))
            (js_mul (fl 84.6)
               (fl (of_nat (syllableCount_of (words_of t)) / of_nat (wordCount_of t)))))))
   \<and> (\<exists>k. readabilityScore_of t = Fin (of_int k) \<and> 0 \<le> k \<and> k \<le> 100)"
proof -
  have "wordCount_of t \<le> syllableCount_of (words_of t)"
    unfolding wordCount_of_def by (rule syllableCount_ge)
  then show ?thesis
    using sentenceCount_pos [of t] wordCount_pos [of t] syllables_of_pos [of word]
      avgSentenceLength_fl [of t] avgSyllables_fl [of t] readability_formula [of t]
      readability_range [of t]
    by simp
qed

text \<open>The one-word, one-sentence text \<open>Hello\<close>: 1 word, 1 sentence, 2 syllables, score 37.\<close>

theorem readabilityScore_single_word:
  "wordCount_of ''Hello'' = 1 \<and> sentenceCount_of ''Hello'' = 1
   \<and> syllableCount_of (words_of ''Hello'') = 2 \<and> readabilityScore_of ''Hello'' = Fin 37"
proof -
  have w: "wordCount_of ''Hello'' = 1" by code_simp
  have s: "sentenceCount_of ''Hello'' = 1" by code_simp
  have y: "syllableCount_of (words_of ''Hello'') = 2" by code_simp
  from readabilityScore_flesch [of "''Hello''"] w s y flesch_1_1_2 show ?thesis by simp
qed

subsection \<open>The word count\<close>

text \<open>
  C10. For every body text, the empty one included, the word count is at least 1: the
  split on white space always returns a piece, and the empty pieces at the ends of the
  text are counted (the empty text is one empty piece; \<open>hello\<close> between two blanks is three
  pieces). The loop for long words and typos passes over an empty piece without a change.
  So the division of the syllable count by the word count is not by zero: the quotient,
  rounded to a double, is never NaN and at least 1, and it is finite for every syllable
  count below \<open>2 ^ 53\<close>.
\<close>

theorem wordCount_at_least_one:
  "1 \<le> wordCount_of t
   \<and> words_of [] = [[]] \<and> wordCount_of [] = 1
   \<and> words_of '' hello '' = [[], ''hello'', []] \<and> wordCount_of '' hello '' = 3
   \<and> scan_word spell [] st = st
   \<and> js_div (syllableCount_of (words_of t)) (wordCount_of t)
       = fl (of_nat (syllableCount_of (words_of t)) / of_nat (wordCount_of t))
   \<and> (js_div (syllableCount_of (words_of t)) (wordCount_of t) = PosInf
       \<or> (\<exists>r. js_div (syllableCount_of (words_of t)) (wordCount_of t) = Fin r \<and> 1 \<le> r))
   \<and> (syllableCount_of (words_of t) < 2 ^ 53 \<longrightarrow>
        (\<exists>r. js_div (syllableCount_of (words_of t)) (wordCount_of t) = Fin r \<and> 1 \<le> r))"
proof -
  have e: "words_of [] = [[]]" by (simp add: words_of_def split_runs_empty)
  have h: "words_of '' hello '' = [[], ''hello'', []]" by code_simp
  have "scan_word spell [] st = st" by (simp add: scan_word_def cleanWord_of_def)
  then show ?thesis
    using wordCount_pos [of t] syllables_per_word_fl [of t] syllables_per_word_cases [of t]
      syllables_per_word_finite [of t] e h
    by (simp add: wordCount_of_def)
qed

text \<open>
  \<open>hello\<close> between two blanks: three pieces, four syllables (an empty piece counts for
  one), the quotient 4 / 3 as a double.
\<close>

theorem wordCount_hello_witness:
  "wordCount_of '' hello '' = 3 \<and> syllableCount_of (words_of '' hello '') = 4
   \<and> (\<exists>r. js_div (syllableCount_of (words_of '' hello '')) (wordCount_of '' hello '') = Fin r
          \<and> 1 \<le> r)"
proof -
  have y: "syllableCount_of (words_of '' hello '') = 4" by code_simp
  have "(4::nat) < 2 ^ 53" by simp
  with wordCount_at_least_one [where t = "'' hello ''" and spell = None and st = "([], 0)"]
  show ?thesis unfolding y by blast
qed

subsection \<open>The SEO score\<close>











subsection \<open>The keywords\<close>

lemma fold_keyword_step:
  "fold keyword_step words acc = fold (\<lambda>c wf. freq_bump wf c) (kept_tokens words) acc"
  by (induction words arbitrary: acc) (simp_all add: kept_tokens_def keyword_step_def Let_def)

lemma first_seen_snoc:
  "first_seen (ts @ [t]) = (if t \<in> set ts then first_seen ts else first_seen ts @ [t])"
  by (simp add: first_seen_def)

lemma set_first_seen: "set (first_seen ts) = set ts"
  by (simp add: first_seen_def)

lemma distinct_first_seen: "distinct (first_seen ts)"
  by (simp add: first_seen_def)

lemma map_of_tabulate:
  "map_of (map (\<lambda>w. (w, f w)) xs) k = (if k \<in> set xs then Some (f k) else None)"
  by (induction xs) auto

lemma update_tabulate_in:
  "k \<in> set xs \<Longrightarrow> distinct xs \<Longrightarrow>
   AList.update k v (map (\<lambda>w. (w, f w)) xs) = map (\<lambda>w. (w, if w = k then v else f w)) xs"
  by (induction xs) auto

lemma update_tabulate_notin:
  "k \<notin> set xs \<Longrightarrow>
   AList.update k v (map (\<lambda>w. (w, f w)) xs) = map (\<lambda>w. (w, f w)) xs @ [(k, v)]"
  by (induction xs) auto

lemma count_list_snoc: "count_list (ts @ [t]) w = count_list ts w + (if w = t then 1 else 0)"
  by (induction ts) auto

text \<open>
  The table built by the loop, as long as no token is \<open>constructor\<close>: the distinct tokens
  in the order of their first occurrence, each with the number of its occurrences.
\<close>

lemma fold_freq_bump:
  "''constructor'' \<notin> set ts \<Longrightarrow>
   fold (\<lambda>c wf. freq_bump wf c) ts [] = map (\<lambda>w. (w, Num (count_list ts w))) (first_seen ts)"
proof (induction ts rule: rev_induct)
  case Nil
  show ?case by (simp add: first_seen_def)
next
  case (snoc t ts)
  then have IH: "fold (\<lambda>c wf. freq_bump wf c) ts []
      = map (\<lambda>w. (w, Num (count_list ts w))) (first_seen ts)"
    and nc: "t \<noteq> ''constructor''" by auto
  have step: "fold (\<lambda>c wf. freq_bump wf c) (ts @ [t]) []
      = freq_bump (map (\<lambda>w. (w, Num (count_list ts w))) (first_seen ts)) t"
    by (simp add: IH)
  show ?case
  proof (cases "t \<in> set ts")
    case True
    have "freq_bump (map (\<lambda>w. (w, Num (count_list ts w))) (first_seen ts)) t
        = map (\<lambda>w. (w, if w = t then Num (count_list ts t + 1) else Num (count_list ts w)))
            (first_seen ts)"
      using True
      by (simp add: freq_bump_def map_of_tabulate set_first_seen update_tabulate_in
          distinct_first_seen)
    also have "\<dots> = map (\<lambda>w. (w, Num (count_list (ts @ [t]) w))) (first_seen ts)"
      by (rule map_cong) (simp_all add: count_list_snoc)
    finally show ?thesis using True by (simp only: step first_seen_snoc if_True)
  next
    case False
    then have c0: "count_list ts t = 0" by (simp add: count_list_0_iff)
    have b: "freq_bump (map (\<lambda>w. (w, Num (count_list ts w))) (first_seen ts)) t
        = map (\<lambda>w. (w, Num (count_list ts w))) (first_seen ts) @ [(t, Num 1)]"
      using False nc
      by (simp add: freq_bump_def map_of_tabulate set_first_seen update_tabulate_notin)
    have m: "map (\<lambda>w. (w, Num (count_list ts w))) (first_seen ts)
        = map (\<lambda>w. (w, Num (count_list (ts @ [t]) w))) (first_seen ts)"
      using False by (intro map_cong) (auto simp: count_list_snoc set_first_seen)
    have l: "(t, Num 1) = (t, Num (count_list (ts @ [t]) t))"
      using c0 by (simp add: count_list_snoc)
    have "first_seen (ts @ [t]) = first_seen ts @ [t]"
      using False by (simp add: first_seen_snoc)
    then have "map (\<lambda>w. (w, Num (count_list (ts @ [t]) w))) (first_seen (ts @ [t]))
        = map (\<lambda>w. (w, Num (count_list (ts @ [t]) w))) (first_seen ts) @ [(t, Num 1)]"
      using l by simp
    then show ?thesis using step b m by simp
  qed
qed

lemma insert_sorted_Num:
  "insert_sorted freq_compare (w, Num c) (map (\<lambda>p. (fst p, Num (snd p))) ys)
     = map (\<lambda>p. (fst p, Num (snd p))) (insort_key (\<lambda>p. - int (snd p)) (w, c) ys)"
  by (induction ys) (auto simp: freq_compare_def order_of_def)

lemma stable_sort_Num:
  "stable_sort freq_compare (map (\<lambda>p. (fst p, Num (snd p))) xs)
     = map (\<lambda>p. (fst p, Num (snd p))) (sort_key (\<lambda>p. - int (snd p)) xs)"
proof (induction xs)
  case Nil
  show ?case by (simp add: stable_sort_def)
next
  case (Cons x xs)
  obtain w c where x: "x = (w, c)" by (cases x)
  from Cons show ?case
    using insert_sorted_Num [of w c "sort_key (\<lambda>p. - int (snd p)) xs"]
    by (simp add: stable_sort_def x)
qed

text \<open>A table of numbers is sorted by descending count, stably, on every engine.\<close>

lemma js_sort_Num:
  "js_sort long_sort (map (\<lambda>p. (fst p, Num (snd p))) xs)
     = map (\<lambda>p. (fst p, Num (snd p))) (sort_key (\<lambda>p. - int (snd p)) xs)"
proof -
  have "list_all (\<lambda>e. is_count (snd e)) (map (\<lambda>p. (fst p, Num (snd p))) xs)"
    by (simp add: list_all_iff is_count_def)
  then show ?thesis by (simp only: js_sort_def if_True stable_sort_Num)
qed

text \<open>
  As long as the word \<open>constructor\<close> is not among the kept tokens of the text, the keywords
  of the source are the keywords of the specification, each count a number.
\<close>

lemma keywords_refine:
  assumes "''constructor'' \<notin> set (kept_tokens (words_of t))"
  shows "keywords_of long_sort t = map (\<lambda>p. (fst p, Num (snd p))) (keywords_spec t)"
proof -
  define kept where "kept = kept_tokens (words_of t)"
  define tab where "tab = map (\<lambda>w. (w, count_list kept w)) (first_seen kept)"
  have "wordFreq_of (words_of t) = map (\<lambda>w. (w, Num (count_list kept w))) (first_seen kept)"
    using fold_freq_bump [OF assms] by (simp add: wordFreq_of_def fold_keyword_step kept_def)
  also have "\<dots> = map (\<lambda>p. (fst p, Num (snd p))) tab"
    by (simp add: tab_def)
  finally have "keywords_of long_sort t
      = take 5 (js_sort long_sort (map (\<lambda>p. (fst p, Num (snd p))) tab))"
    by (simp add: keywords_of_def)
  also have "\<dots> = map (\<lambda>p. (fst p, Num (snd p))) (take 5 (sort_key (\<lambda>p. - int (snd p)) tab))"
    by (simp only: js_sort_Num take_map)
  also have "take 5 (sort_key (\<lambda>p. - int (snd p)) tab) = keywords_spec t"
    by (simp add: keywords_spec_def Let_def tab_def kept_def)
  finally show ?thesis .
qed

text \<open>
  With a string among the counts the order is that of V8's insertion sort: in
  \<open>alpha bravo bravo constructor delta delta\<close> the run \<open>alpha\<close>, \<open>bravo\<close> descends and is
  reversed, \<open>constructor\<close> compares as equal to everything and stays, and \<open>delta\<close> is put
  after \<open>bravo\<close>.
\<close>

lemma keywords_mixed_order:
  "keywords_of long_sort ''alpha bravo bravo constructor delta delta''
     = [(''bravo'', Num 2), (''delta'', Num 2), (''alpha'', Num 1),
        (''constructor'', Str ''function Object() { [native code] }1'')]"
  by code_simp

text \<open>
  C9. On the body text \<open>A constructor builds objects\<close> the specification's rule gives the
  keywords \<open>constructor\<close>, \<open>builds\<close> and \<open>objects\<close>, each with the count 1. The source
  pairs \<open>constructor\<close> with a string instead: the table is a plain object, reading the
  missing key \<open>constructor\<close> finds the inherited \<open>Object.prototype.constructor\<close>, and
  \<open>+ 1\<close> appends to its text.
\<close>

theorem keywords_constructor:
  "keywords_of long_sort ''A constructor builds objects''
     = [(''constructor'', Str ''function Object() { [native code] }1''),
        (''builds'', Num 1), (''objects'', Num 1)]
   \<and> keywords_spec ''A constructor builds objects''
     = [(''constructor'', 1), (''builds'', 1), (''objects'', 1)]"
proof -
  have "keywords_of long_sort ''A constructor builds objects''
     = [(''constructor'', Str ''function Object() { [native code] }1''),
        (''builds'', Num 1), (''objects'', Num 1)]"
    by code_simp
  moreover have "keywords_spec ''A constructor builds objects''
     = [(''constructor'', 1), (''builds'', 1), (''objects'', 1)]"
    by code_simp
  ultimately show ?thesis by simp
qed

section \<open>Properties of the page analyzer\<close>

text \<open>
  The viewport loop raises exactly its first failing resize, measurement or path building.
\<close>

lemma sweep_raises:
  "sweep_failure env vps = Some e \<Longrightarrow> fst (sweep env u vps) = Inl e"
proof (induction vps)
  case Nil
  then show ?case by simp
next
  case (Cons vp vps)
  obtain name w h where vp: "vp = (name, w, h)" by (cases vp)
  show ?case
  proof (cases "vp_setViewport (sweep_env env name)")
    case (Some x)
    with Cons.prems show ?thesis by (simp add: vp)
  next
    case None
    show ?thesis
    proof (cases "vp_evaluate (sweep_env env name)")
      case (Inl x)
      with None Cons.prems show ?thesis by (simp add: vp)
    next
      case (Inr issues)
      define paths where
        "paths = (if m_horizontalScroll issues \<or> m_overflowingElements issues > 0
                  then vp_cwd (sweep_env env name) else None)"
      show ?thesis
      proof (cases paths)
        case (Some x)
        with None Inr Cons.prems have "x = e" by (simp add: vp paths_def [symmetric])
        with Some None Inr show ?thesis by (simp add: vp Let_def paths_def [symmetric])
      next
        case n: None
        with None Inr Cons.prems have "sweep_failure env vps = Some e"
          by (simp add: vp paths_def [symmetric])
        then have "fst (sweep env u vps) = Inl e" by (rule Cons.IH)
        then show ?thesis using None Inr n
          by (cases "sweep env u vps") (simp add: vp Let_def paths_def [symmetric])
      qed
    qed
  qed
qed

lemma sweep_returns:
  "sweep_failure env vps = None \<Longrightarrow> \<exists>vis. fst (sweep env u vps) = Inr vis"
proof (induction vps)
  case Nil
  then show ?case by simp
next
  case (Cons vp vps)
  obtain name w h where vp: "vp = (name, w, h)" by (cases vp)
  from Cons.prems have n: "vp_setViewport (sweep_env env name) = None"
    by (simp add: vp split: option.splits)
  from Cons.prems n obtain issues where i: "vp_evaluate (sweep_env env name) = Inr issues"
    by (cases "vp_evaluate (sweep_env env name)") (simp_all add: vp)
  define paths where
    "paths = (if m_horizontalScroll issues \<or> m_overflowingElements issues > 0
              then vp_cwd (sweep_env env name) else None)"
  from Cons.prems n i have p: "paths = None"
    by (cases paths) (simp_all add: vp paths_def [symmetric])
  from Cons.prems n i p have "sweep_failure env vps = None"
    by (simp add: vp paths_def [symmetric])
  then obtain vis where "fst (sweep env u vps) = Inr vis" using Cons.IH by blast
  then show ?case using n i p
    by (cases "sweep env u vps") (simp add: vp Let_def paths_def [symmetric])
qed

lemma sweep_raises_iff:
  "(fst (sweep env u vps) = Inl e) = (sweep_failure env vps = Some e)"
proof (cases "sweep_failure env vps")
  case None
  from sweep_returns [OF this, of u] show ?thesis using None by auto
next
  case (Some x)
  from sweep_raises [OF this, of u] show ?thesis using Some by auto
qed

text \<open>The body of the \<open>try\<close> raises exactly the protocol failure.\<close>

lemma try_raises_iff:
  "(fst (analyzePage_try spell env u) = Inl e) = (protocol_failure env = Some e)"
proof -
  have s: "(fst (case sweep env u viewports of
                  (Inl x, ops) \<Rightarrow> (Inl x, f x ops)
                | (Inr vis, ops) \<Rightarrow> (Inr (g vis), h vis ops)) = Inl e)
          = (sweep_failure env viewports = Some e)" for f g h
    using sweep_raises_iff [of env u viewports e]
    by (cases "sweep env u viewports") (auto split: sum.splits)
  show ?thesis
    by (simp add: analyzePage_try_def protocol_failure_def navigate_def Let_def s
        split: option.splits sum.splits)
qed

lemma analyzePage_failure:
  "protocol_failure env = Some e \<Longrightarrow>
   analyzePage spell env u = degraded_report u 0 0 (catch_message e)"
  using try_raises_iff [of spell env u e] by (simp add: analyzePage_def)

lemma analyzePage_no_failure:
  assumes "protocol_failure env = None"
  shows "fst (analyzePage_try spell env u) = Inr (analyzePage spell env u)"
proof (cases "fst (analyzePage_try spell env u)")
  case (Inl e)
  then show ?thesis using try_raises_iff [of spell env u e] assms by simp
next
  case (Inr r)
  then show ?thesis by (simp add: analyzePage_def)
qed

lemma try_report_cases:
  assumes "fst (analyzePage_try spell env u) = Inr r"
  shows "(\<exists>resp. setViewport0 env = None \<and> goto env = Inr (Some resp) \<and> \<not> ok resp
            \<and> r = degraded_report u (int (now_end env) - int (now_start env)) (status resp)
                    (''HTTP '' @ decimal (status resp)))
       \<or> (\<exists>rt sc sa vis. r = full_report spell (engine_sort env) u rt sc sa vis
            \<and> \<not> (\<exists>resp. goto env = Inr (Some resp) \<and> \<not> ok resp))"
  using assms
  by (auto simp: analyzePage_try_def navigate_def Let_def
      split: option.splits sum.splits prod.splits if_splits)

lemma metrics_iff_error:
  "(contentMetrics (analyzePage spell env u) = None) = (error (analyzePage spell env u) \<noteq> None)"
proof (cases "fst (analyzePage_try spell env u)")
  case (Inl e)
  then show ?thesis by (simp add: analyzePage_def degraded_report_def)
next
  case (Inr r)
  then have a: "analyzePage spell env u = r" by (simp add: analyzePage_def)
  from try_report_cases [OF Inr] show ?thesis unfolding a
    by (auto simp: degraded_report_def full_report_def Let_def)
qed

lemma error_iff:
  "(error (analyzePage spell env u) \<noteq> None)
     = (protocol_failure env \<noteq> None
        \<or> (setViewport0 env = None \<and> (\<exists>resp. goto env = Inr (Some resp) \<and> \<not> ok resp)))"
proof (cases "fst (analyzePage_try spell env u)")
  case (Inl e)
  then have "protocol_failure env = Some e" by (simp add: try_raises_iff)
  with Inl show ?thesis by (simp add: analyzePage_def degraded_report_def)
next
  case (Inr r)
  then have a: "analyzePage spell env u = r" by (simp add: analyzePage_def)
  have n: "protocol_failure env = None"
  proof (cases "protocol_failure env")
    case (Some e)
    then show ?thesis using try_raises_iff [of spell env u e] Inr by simp
  qed simp
  from try_report_cases [OF Inr] show ?thesis unfolding a n
    by (auto simp: degraded_report_def full_report_def Let_def)
qed

lemma non_ok_report:
  assumes "setViewport0 env = None" and "goto env = Inr (Some r)" and "\<not> ok r"
  shows "analyzePage_try spell env u =
     (Inr (degraded_report u (int (now_end env) - int (now_start env)) (status r)
            (''HTTP '' @ decimal (status r))),
      [SetViewport 1920 1080, Goto u])"
  using assms by (simp add: analyzePage_try_def navigate_def Let_def)

lemma timeout_report:
  assumes "setViewport0 env = None" and "goto env = Inl e" and "is_TimeoutError e"
    and "evaluate_static env = Inr sa" and "sweep_failure env viewports = None"
  shows "\<exists>vis. analyzePage spell env u
      = full_report spell (engine_sort env) u (int (now_end env) - int (now_start env)) 0 sa vis"
proof -
  from sweep_returns [OF assms(5)] obtain vis where v: "fst (sweep env u viewports) = Inr vis"
    by blast
  have "analyzePage spell env u
      = full_report spell (engine_sort env) u (int (now_end env) - int (now_start env)) 0 sa vis"
    using assms(1-4) v
    by (cases "sweep env u viewports")
       (simp add: analyzePage_def analyzePage_try_def navigate_def Let_def)
  then show ?thesis ..
qed

text \<open>Every report carries the URL the analyzer was sent to.\<close>

lemma analyzePage_url: "url (analyzePage spell env u) = u"
proof (cases "fst (analyzePage_try spell env u)")
  case (Inl e)
  then show ?thesis by (simp add: analyzePage_def degraded_report_def)
next
  case (Inr r)
  then have a: "analyzePage spell env u = r" by (simp add: analyzePage_def)
  from try_report_cases [OF Inr] show ?thesis unfolding a
    by (auto simp: degraded_report_def full_report_def Let_def)
qed

text \<open>
  C2. When the navigation yields a response that is not ok, \<open>analyzePage\<close> returns at once:
  the report has the error \<open>HTTP\<close> followed by the status code, the response's status code,
  an empty title and meta description, no H1, no links, zero issue counts, no viewport
  issues and no content metrics; the only calls made on the page are the first resize and
  the navigation, so that neither the viewport sweep nor the content scoring runs.
\<close>

theorem non_ok_response_short_circuits:
  assumes "setViewport0 env = None" and "goto env = Inr (Some r)" and "\<not> ok r"
  shows "analyzePage spell env u =
      \<lparr> url = u, title = [], metaDescription = [], h1 = None,
        responseTime = int (now_end env) - int (now_start env),
        statusCode = status r, error = Some (''HTTP '' @ decimal (status r)), links = [],
        uxIssues = \<lparr> missingAltTags = 0, emptyLinks = 0, hasViewport = False, h1Count = 0 \<rparr>,
        visualIssues = \<lparr> imagesMissingDimensions = 0, longWords = 0, viewportIssues = [] \<rparr>,
        contentIssues = \<lparr> possibleTypos = [] \<rparr>,
        contentMetrics = None \<rparr>
    \<and> analyzePage_ops spell env u = [SetViewport 1920 1080, Goto u]"
  using non_ok_report [OF assms, of spell u]
  by (simp add: analyzePage_def analyzePage_ops_def degraded_report_def)

lemma decimal_404: "decimal 404 = ''404''"
  by code_simp

text \<open>A page answering 404: the report has the status code 404 and the error \<open>HTTP 404\<close>.\<close>

theorem http_404_report:
  "setViewport0 page_404 = None
   \<and> goto page_404 = Inr (Some \<lparr> status = 404, ok = False \<rparr>)
   \<and> statusCode (analyzePage None page_404 ''https://example.com/missing'') = 404
   \<and> error (analyzePage None page_404 ''https://example.com/missing'') = Some ''HTTP 404''
   \<and> links (analyzePage None page_404 ''https://example.com/missing'') = []
   \<and> contentMetrics (analyzePage None page_404 ''https://example.com/missing'') = None
   \<and> analyzePage_ops None page_404 ''https://example.com/missing''
       = [SetViewport 1920 1080, Goto ''https://example.com/missing'']"
proof -
  have s: "setViewport0 page_404 = None"
    and g: "goto page_404 = Inr (Some \<lparr> status = 404, ok = False \<rparr>)"
    by (simp_all add: page_404_def example_page_def)
  have n: "\<not> ok \<lparr> status = 404, ok = False \<rparr>" by simp
  from non_ok_response_short_circuits [OF s g n, of None "''https://example.com/missing''"]
  show ?thesis using s g by (simp add: decimal_404)
qed

lemma quiet_sweep: "sweep_failure (example_page nav st (\<lambda>n. quiet_viewport)) viewports = None"
  by (simp add: viewports_def example_page_def quiet_viewport_def)

text \<open>
  C3, as stated, fails: a load that runs into the timeout is analyzed all the same (lines
  93 to 96), and when the later steps succeed the report has the status code 0, no error,
  and its content metrics.
\<close>

theorem timeout_keeps_contentMetrics:
  "goto page_timeout = Inl (JsError ''TimeoutError'' ''Navigation timeout of 30000 ms exceeded'')
   \<and> statusCode (analyzePage None page_timeout ''https://example.com/slow'') = 0
   \<and> error (analyzePage None page_timeout ''https://example.com/slow'') = None
   \<and> contentMetrics (analyzePage None page_timeout ''https://example.com/slow'') \<noteq> None"
proof -
  have g: "goto page_timeout
      = Inl (JsError ''TimeoutError'' ''Navigation timeout of 30000 ms exceeded'')"
    and s: "setViewport0 page_timeout = None"
    and e: "evaluate_static page_timeout = Inr (example_static ''Example Domain'' [])"
    by (simp_all add: page_timeout_def example_page_def)
  have t: "is_TimeoutError (JsError ''TimeoutError'' ''Navigation timeout of 30000 ms exceeded'')"
    by (simp add: is_TimeoutError_def)
  have f: "sweep_failure page_timeout viewports = None"
    unfolding page_timeout_def by (rule quiet_sweep)
  from timeout_report [OF s g t e f, of None "''https://example.com/slow''"]
  show ?thesis using g by (auto simp: full_report_def Let_def)
qed

text \<open>
  C3, amended. The content metrics of a report are absent exactly when the report carries
  an error, that is, when the response was not ok or a failure reached the outer handler.
  A load timeout is not such a failure: when the extraction and the viewport sweep
  succeed after it, the report has the status code 0, no error, and the content metrics
  of the extracted facts.
\<close>

theorem contentMetrics_absent_iff_error:
  "((contentMetrics (analyzePage spell env u) = None) = (error (analyzePage spell env u) \<noteq> None))
   \<and> ((error (analyzePage spell env u) \<noteq> None)
        = (protocol_failure env \<noteq> None
           \<or> (setViewport0 env = None \<and> (\<exists>resp. goto env = Inr (Some resp) \<and> \<not> ok resp))))
   \<and> (setViewport0 env = None \<and> goto env = Inl e \<and> is_TimeoutError e
        \<and> evaluate_static env = Inr sa \<and> sweep_failure env viewports = None
      \<longrightarrow> statusCode (analyzePage spell env u) = 0
          \<and> error (analyzePage spell env u) = None
          \<and> contentMetrics (analyzePage spell env u) = Some (contentMetrics_of (engine_sort env) sa))"
proof -
  have "statusCode (analyzePage spell env u) = 0
          \<and> error (analyzePage spell env u) = None
          \<and> contentMetrics (analyzePage spell env u) = Some (contentMetrics_of (engine_sort env) sa)"
    if "setViewport0 env = None" "goto env = Inl e" "is_TimeoutError e"
       "evaluate_static env = Inr sa" "sweep_failure env viewports = None"
    using timeout_report [OF that, of spell u] by (auto simp: full_report_def Let_def)
  then show ?thesis
    using metrics_iff_error [of spell env u] error_iff [of spell env u] by blast
qed

text \<open>The page whose load times out: status code 0, no error, content metrics present.\<close>

theorem timeout_report_witness:
  "is_TimeoutError (JsError ''TimeoutError'' ''Navigation timeout of 30000 ms exceeded'')
   \<and> statusCode (analyzePage None page_timeout ''https://example.com/slow'') = 0
   \<and> error (analyzePage None page_timeout ''https://example.com/slow'') = None
   \<and> contentMetrics (analyzePage None page_timeout ''https://example.com/slow'')
       = Some (contentMetrics_of (engine_sort page_timeout)
                 (example_static ''Example Domain'' []))"
proof -
  have g: "goto page_timeout
      = Inl (JsError ''TimeoutError'' ''Navigation timeout of 30000 ms exceeded'')"
    and s: "setViewport0 page_timeout = None"
    and e: "evaluate_static page_timeout = Inr (example_static ''Example Domain'' [])"
    by (simp_all add: page_timeout_def example_page_def)
  have t: "is_TimeoutError (JsError ''TimeoutError'' ''Navigation timeout of 30000 ms exceeded'')"
    by (simp add: is_TimeoutError_def)
  have f: "sweep_failure page_timeout viewports = None"
    unfolding page_timeout_def by (rule quiet_sweep)
  from contentMetrics_absent_iff_error
         [of None page_timeout "''https://example.com/slow''"
             "JsError ''TimeoutError'' ''Navigation timeout of 30000 ms exceeded''"
             "example_static ''Example Domain'' []"]
  show ?thesis using g s e t f by simp
qed

text \<open>
  C6, as stated, fails: a failure while saving a screenshot is raised inside the per-page
  protocol, is no load timeout, and is not turned into a report with empty fields. It is
  caught where it happens (line 326) and the analysis goes on: the report has no error, the
  extracted title, and its content metrics.
\<close>

theorem screenshot_failure_is_absorbed:
  "vp_screenshot (sweep_env page_screenshot_fails Desktop)
     = Some (JsError ''Error'' ''EACCES: permission denied, mkdir'')
   \<and> TryScreenshot (screenshot_filename ''https://example.com/wide'' Desktop 1700000000400)
       \<in> set (analyzePage_ops None page_screenshot_fails ''https://example.com/wide'')
   \<and> error (analyzePage None page_screenshot_fails ''https://example.com/wide'') = None
   \<and> title (analyzePage None page_screenshot_fails ''https://example.com/wide'') = ''Example Domain''
   \<and> contentMetrics (analyzePage None page_screenshot_fails ''https://example.com/wide'') \<noteq> None"
  by (simp add: analyzePage_def analyzePage_ops_def analyzePage_try_def page_screenshot_fails_def
      example_page_def response_200_def navigate_def viewports_def overflowing_viewport_def
      full_report_def example_static_def Let_def)

text \<open>
  C6, amended. \<open>analyzePage\<close> always returns a report. The body of its \<open>try\<close> raises
  exactly the first failure of the protocol that no inner handler absorbs (the load
  timeout and a failing screenshot are absorbed); the outer handler turns that failure
  into the report with empty extraction fields, no links, zero issue counts, the status
  code 0, and the error set to the failure's message (\<open>Failed to fetch\<close> when the thrown
  value is no \<open>Error\<close>). Without such a failure the report is the one the body returns.
\<close>

theorem analyzePage_absorbs_failures:
  "(protocol_failure env = Some e \<longrightarrow>
      analyzePage spell env u =
        \<lparr> url = u, title = [], metaDescription = [], h1 = None, responseTime = 0,
          statusCode = 0, error = Some (catch_message e), links = [],
          uxIssues = \<lparr> missingAltTags = 0, emptyLinks = 0, hasViewport = False, h1Count = 0 \<rparr>,
          visualIssues = \<lparr> imagesMissingDimensions = 0, longWords = 0, viewportIssues = [] \<rparr>,
          contentIssues = \<lparr> possibleTypos = [] \<rparr>,
          contentMetrics = None \<rparr>)
   \<and> (protocol_failure env = None \<longrightarrow>
        fst (analyzePage_try spell env u) = Inr (analyzePage spell env u))
   \<and> ((fst (analyzePage_try spell env u) = Inl e) = (protocol_failure env = Some e))"
  using analyzePage_failure [of env e spell u] analyzePage_no_failure [of env spell u]
    try_raises_iff [of spell env u e]
  by (simp add: degraded_report_def)

text \<open>
  Building the screenshot's path is outside the inner \<open>try\<close>: when \<open>process.cwd()\<close> throws
  at a viewport with an overflow, no screenshot is tried and the failure reaches the outer
  handler.
\<close>

lemma path_failure_report:
  "protocol_failure page_cwd_gone
     = Some (JsError ''Error'' ''ENOENT: no such file or directory, uv_cwd'')
   \<and> analyzePage_ops None page_cwd_gone ''https://example.com/wide''
       = [SetViewport 1920 1080, Goto ''https://example.com/wide'', Evaluate_static,
          SetViewport 1920 1080, Evaluate_viewport]
   \<and> analyzePage None page_cwd_gone ''https://example.com/wide''
       = degraded_report ''https://example.com/wide'' 0 0
           ''ENOENT: no such file or directory, uv_cwd''"
  by (simp add: analyzePage_def analyzePage_ops_def analyzePage_try_def page_cwd_gone_def
      protocol_failure_def example_page_def response_200_def navigate_def viewports_def
      overflowing_viewport_def catch_message_def Let_def)

text \<open>A page whose extraction throws: the report carries the message of the exception.\<close>

theorem extraction_crash_report:
  "protocol_failure page_crash = Some (JsError ''Error'' ''Execution context was destroyed'')
   \<and> error (analyzePage None page_crash ''https://example.com/'')
       = Some ''Execution context was destroyed''
   \<and> statusCode (analyzePage None page_crash ''https://example.com/'') = 0
   \<and> links (analyzePage None page_crash ''https://example.com/'') = []
   \<and> contentMetrics (analyzePage None page_crash ''https://example.com/'') = None"
proof -
  have p: "protocol_failure page_crash
      = Some (JsError ''Error'' ''Execution context was destroyed'')"
    by (simp add: protocol_failure_def page_crash_def example_page_def response_200_def)
  from analyzePage_absorbs_failures
         [of page_crash "JsError ''Error'' ''Execution context was destroyed''" None
             "''https://example.com/''"]
  show ?thesis using p by (simp add: catch_message_def)
qed

section \<open>Properties of the crawl\<close>

lemma enqueue_links_eq:
  "enqueue_links U a vis u d ls q
     = q @ map (\<lambda>c. (c, d + 1)) (List.map_filter (admit U a vis u) ls)"
  unfolding enqueue_links_def
  by (induction ls arbitrary: q) (simp_all add: map_filter_simps split: option.split)

text \<open>The loop, one case at a time.\<close>

lemma crawl_loop_Nil: "crawl_loop U spell env options a visited [] n = ([], None)"
  by (subst crawl_loop.simps) simp

lemma crawl_loop_full:
  "\<not> n < maxPages options \<Longrightarrow> crawl_loop U spell env options a visited q n = ([], None)"
  by (subst crawl_loop.simps) (simp split: list.split prod.split)

lemma crawl_loop_skip:
  "n < maxPages options \<Longrightarrow> u \<in> set visited \<Longrightarrow>
   crawl_loop U spell env options a visited ((u, d) # rest) n
     = crawl_loop U spell env options a visited rest n"
  by (subst crawl_loop.simps) simp

lemma crawl_loop_newPage_fails:
  "n < maxPages options \<Longrightarrow> u \<notin> set visited \<Longrightarrow> newPage env n = Some e \<Longrightarrow>
   crawl_loop U spell env options a visited ((u, d) # rest) n = ([], Some e)"
  by (subst crawl_loop.simps) simp

lemma crawl_loop_closePage_fails:
  "n < maxPages options \<Longrightarrow> u \<notin> set visited \<Longrightarrow> newPage env n = None \<Longrightarrow>
   closePage env n = Some e \<Longrightarrow>
   crawl_loop U spell env options a visited ((u, d) # rest) n = ([], Some e)"
  by (subst crawl_loop.simps) (simp add: Let_def)

lemma crawl_loop_step:
  "n < maxPages options \<Longrightarrow> u \<notin> set visited \<Longrightarrow> newPage env n = None \<Longrightarrow>
   closePage env n = None \<Longrightarrow>
   crawl_loop U spell env options a visited ((u, d) # rest) n
     = ((u, d, analyzePage spell (page_of env n u) u)
          # fst (crawl_loop U spell env options a (u # visited)
                  (next_queue U options a visited u d (analyzePage spell (page_of env n u) u) rest)
                  (Suc n)),
        snd (crawl_loop U spell env options a (u # visited)
               (next_queue U options a visited u d (analyzePage spell (page_of env n u) u) rest)
               (Suc n)))"
  by (subst crawl_loop.simps) (simp add: Let_def)

lemma strip_fragment_no_hash: "CHR ''#'' \<notin> set (strip_fragment s)"
  unfolding strip_fragment_def by (induction s) auto

lemma strip_fragment_id: "CHR ''#'' \<notin> set s \<Longrightarrow> strip_fragment s = s"
  unfolding strip_fragment_def by (induction s) auto

text \<open>The example crawls, step by step.\<close>

lemma example_page_links:
  "links (analyzePage spell (example_page response_200 (Inr sa) (\<lambda>n. quiet_viewport)) u)
     = s_links sa"
  by (simp add: analyzePage_def analyzePage_try_def example_page_def response_200_def
      navigate_def viewports_def quiet_viewport_def full_report_def Let_def)

lemma fragment_crawl:
  "map (\<lambda>w. (fst w, fst (snd w)))
     (fst (crawlSite example_URL None fragment_site ''https://example.com/#top''
            \<lparr> maxPages = 20, maxDepth = 2 \<rparr>))
     = [(''https://example.com/#top'', 0), (''https://example.com/'', 1)]"
  by (simp add: crawlSite_def fragment_site_def example_browser_def example_URL_def
      crawl_loop_step crawl_loop_skip crawl_loop_Nil next_queue_def enqueue_links_def
      admit_def strip_fragment_def example_page_links example_static_def Let_def)

lemma small_crawl:
  "map (\<lambda>w. (fst w, fst (snd w)))
     (fst (crawlSite example_URL None small_site ''https://example.com/''
            \<lparr> maxPages = 20, maxDepth = 1 \<rparr>))
     = [(''https://example.com/'', 0), (''https://example.com/about'', 1)]"
  by (simp add: crawlSite_def small_site_def example_browser_def example_URL_def
      crawl_loop_step crawl_loop_skip crawl_loop_Nil next_queue_def enqueue_links_def
      admit_def strip_fragment_def example_page_links example_static_def Let_def)

text \<open>Induction along the loop: one case for each way a turn can go.\<close>

lemma crawl_induct [case_names Nil Full Skip Fault Step]:
  fixes P :: "string list \<Rightarrow> (string \<times> nat) list \<Rightarrow> nat \<Rightarrow> bool"
    and env :: crawl_env and options :: CrawlOptions
  assumes Nil: "\<And>visited n. P visited [] n"
    and Full: "\<And>visited u d rest n. \<not> n < maxPages options \<Longrightarrow> P visited ((u, d) # rest) n"
    and Skip: "\<And>visited u d rest n.
        n < maxPages options \<Longrightarrow> u \<in> set visited \<Longrightarrow> P visited rest n \<Longrightarrow>
        P visited ((u, d) # rest) n"
    and Fault: "\<And>visited u d rest n.
        n < maxPages options \<Longrightarrow> u \<notin> set visited \<Longrightarrow>
        newPage env n \<noteq> None \<or> closePage env n \<noteq> None \<Longrightarrow> P visited ((u, d) # rest) n"
    and Step: "\<And>visited u d rest n.
        n < maxPages options \<Longrightarrow> u \<notin> set visited \<Longrightarrow> newPage env n = None \<Longrightarrow>
        closePage env n = None \<Longrightarrow>
        P (u # visited)
          (next_queue U options a visited u d (analyzePage spell (page_of env n u) u) rest) (Suc n) \<Longrightarrow>
        P visited ((u, d) # rest) n"
  shows "P visited queue n"
proof -
  define R :: "((string list \<times> (string \<times> nat) list \<times> nat) \<times> (string list \<times> (string \<times> nat) list \<times> nat)) set"
    where "R = measures [\<lambda>(v, q, n). maxPages options - n, \<lambda>(v, q, n). length q]"
  have wfR: "wf R" by (simp add: R_def)
  have "P (fst x) (fst (snd x)) (snd (snd x))" for x
  proof (induction x rule: wf_induct_rule [OF wfR])
    case (1 x)
    obtain visited queue n where x: "x = (visited, queue, n)" by (cases x) auto
    have IH: "P v q m" if "(maxPages options - m < maxPages options - n)
        \<or> (maxPages options - m = maxPages options - n \<and> length q < length queue)" for v q m
      using "1.IH" [of "(v, q, m)"] that by (auto simp: R_def x)
    show ?case
    proof (cases queue)
      case Nil
      then show ?thesis using assms(1) by (simp add: x)
    next
      case (Cons p rest)
      obtain u d where p: "p = (u, d)" by (cases p)
      show ?thesis
      proof (cases "n < maxPages options")
        case False
        then show ?thesis using Full Cons p by (simp add: x)
      next
        case lt: True
        show ?thesis
        proof (cases "u \<in> set visited")
          case True
          have "P visited rest n" by (rule IH) (simp add: Cons)
          then show ?thesis using Skip [OF lt True] Cons p by (simp add: x)
        next
          case nv: False
          show ?thesis
          proof (cases "newPage env n = None \<and> closePage env n = None")
            case False
            then show ?thesis using Fault [OF lt nv] Cons p by (auto simp: x)
          next
            case True
            have "P (u # visited)
               (next_queue U options a visited u d (analyzePage spell (page_of env n u) u) rest) (Suc n)"
            proof (rule IH)
              have "maxPages options - Suc n < maxPages options - n" using lt by arith
              then show "maxPages options - Suc n < maxPages options - n
                  \<or> maxPages options - Suc n = maxPages options - n
                    \<and> length (next_queue U options a visited u d
                          (analyzePage spell (page_of env n u) u) rest) < length queue"
                by (rule disjI1)
            qed
            then show ?thesis using Step [OF lt nv] True Cons p by (simp add: x)
          qed
        qed
      qed
    qed
  qed
  from this [of "(visited, queue, n)"] show ?thesis by simp
qed


lemma admit_iff:
  "admit U a visited u link = Some c \<longleftrightarrow> reaches U a u link c \<and> c \<notin> set visited"
  by (auto simp: admit_def reaches_def Let_def split: option.splits)

lemma in_next_queue:
  assumes "(c, k) \<in> set (next_queue U options a visited u d r rest)"
  shows "(c, k) \<in> set rest
     \<or> (d < maxDepth options \<and> k = Suc d \<and> c \<notin> set (u # visited)
        \<and> list_ex (\<lambda>link. reaches U a u link c) (links r))"
proof (cases "d < maxDepth options")
  case False
  with assms show ?thesis by (simp add: next_queue_def)
next
  case True
  with assms have "(c, k) \<in> set rest
      \<or> (c, k) \<in> (\<lambda>c. (c, d + 1)) ` set (List.map_filter (admit U a (u # visited) u) (links r))"
    by (simp add: next_queue_def enqueue_links_eq)
  then show ?thesis
  proof
    assume "(c, k) \<in> set rest" then show ?thesis ..
  next
    assume "(c, k) \<in> (\<lambda>c. (c, d + 1)) ` set (List.map_filter (admit U a (u # visited) u) (links r))"
    then have k: "k = Suc d" and "c \<in> set (List.map_filter (admit U a (u # visited) u) (links r))"
      by auto
    then obtain link where l: "link \<in> set (links r)" and ad: "admit U a (u # visited) u link = Some c"
      by (auto simp: List.map_filter_def)
    from ad have "reaches U a u link c" and "c \<notin> set (u # visited)"
      by (simp_all add: admit_iff)
    with l k True show ?thesis by (auto simp: list_ex_iff)
  qed
qed

text \<open>
  From any state of the loop: at most \<open>maxPages - pagesCrawled\<close> further pages are
  analyzed; they are pairwise different URLs, none of them visited before; their depths
  stay within \<open>maxDepth\<close> when those of the queue do; each comes from the queue or was
  enqueued from a page analyzed before it; and the loop ends without an exception when no
  page fails to open or close.
\<close>

lemma crawl_cap:
  "length (fst (crawl_loop U spell env options a visited queue n)) \<le> maxPages options - n"
proof (induction visited queue n
    rule: crawl_induct [where U = U and spell = spell and env = env and options = options and a = a])
  case (Nil visited n)
  show ?case by (simp add: crawl_loop_Nil)
next
  case (Full visited u d rest n)
  then show ?case by (simp add: crawl_loop_full)
next
  case (Skip visited u d rest n)
  then show ?case by (simp add: crawl_loop_skip)
next
  case (Fault visited u d rest n)
  then show ?case
    by (cases "newPage env n")
       (auto simp: crawl_loop_newPage_fails crawl_loop_closePage_fails)
next
  case (Step visited u d rest n)
  then show ?case by (simp add: crawl_loop_step)
qed

lemma crawl_fresh:
  "distinct (map fst (fst (crawl_loop U spell env options a visited queue n)))
   \<and> set (map fst (fst (crawl_loop U spell env options a visited queue n))) \<inter> set visited = {}"
proof (induction visited queue n
    rule: crawl_induct [where U = U and spell = spell and env = env and options = options and a = a])
  case (Nil visited n)
  show ?case by (simp add: crawl_loop_Nil)
next
  case (Full visited u d rest n)
  then show ?case by (simp add: crawl_loop_full)
next
  case (Skip visited u d rest n)
  then show ?case by (simp add: crawl_loop_skip)
next
  case (Fault visited u d rest n)
  then show ?case
    by (cases "newPage env n")
       (auto simp: crawl_loop_newPage_fails crawl_loop_closePage_fails)
next
  case (Step visited u d rest n)
  then show ?case by (auto simp: crawl_loop_step)
qed

lemma crawl_depth:
  "(\<forall>p \<in> set queue. snd p \<le> maxDepth options) \<Longrightarrow>
   \<forall>w \<in> set (fst (crawl_loop U spell env options a visited queue n)). fst (snd w) \<le> maxDepth options"
proof (induction visited queue n
    rule: crawl_induct [where U = U and spell = spell and env = env and options = options and a = a])
  case (Nil visited n)
  show ?case by (simp add: crawl_loop_Nil)
next
  case (Full visited u d rest n)
  then show ?case by (simp add: crawl_loop_full)
next
  case (Skip visited u d rest n)
  then show ?case by (simp add: crawl_loop_skip)
next
  case (Fault visited u d rest n)
  then show ?case
    by (cases "newPage env n")
       (auto simp: crawl_loop_newPage_fails crawl_loop_closePage_fails)
next
  case (Step visited u d rest n)
  have "\<forall>p \<in> set (next_queue U options a visited u d (analyzePage spell (page_of env n u) u) rest).
      snd p \<le> maxDepth options"
  proof
    fix p assume "p \<in> set (next_queue U options a visited u d (analyzePage spell (page_of env n u) u) rest)"
    then have "(fst p, snd p) \<in> set (next_queue U options a visited u d (analyzePage spell (page_of env n u) u) rest)"
      by simp
    from in_next_queue [OF this] Step.prems show "snd p \<le> maxDepth options" by auto
  qed
  with Step show ?case by (simp add: crawl_loop_step)
qed

lemma crawl_parent:
  "\<forall>w \<in> set (fst (crawl_loop U spell env options a visited queue n)).
     (fst w, fst (snd w)) \<in> set queue
     \<or> (\<exists>v \<in> set (fst (crawl_loop U spell env options a visited queue n)). child_of U a options v w)"
proof (induction visited queue n
    rule: crawl_induct [where U = U and spell = spell and env = env and options = options and a = a])
  case (Nil visited n)
  show ?case by (simp add: crawl_loop_Nil)
next
  case (Full visited u d rest n)
  then show ?case by (simp add: crawl_loop_full)
next
  case (Skip visited u d rest n)
  then show ?case by (auto simp: crawl_loop_skip)
next
  case (Fault visited u d rest n)
  then show ?case
    by (cases "newPage env n")
       (auto simp: crawl_loop_newPage_fails crawl_loop_closePage_fails)
next
  case (Step visited u d rest n)
  define r where "r = analyzePage spell (page_of env n u) u"
  define q' where "q' = next_queue U options a visited u d r rest"
  define vs where "vs = fst (crawl_loop U spell env options a (u # visited) q' (Suc n))"
  have eq: "fst (crawl_loop U spell env options a visited ((u, d) # rest) n) = (u, d, r) # vs"
    using Step.hyps by (simp add: crawl_loop_step r_def q'_def vs_def)
  have IH: "\<forall>w \<in> set vs. (fst w, fst (snd w)) \<in> set q' \<or> (\<exists>v \<in> set vs. child_of U a options v w)"
    using Step.IH by (simp add: r_def q'_def vs_def)
  show ?case unfolding eq
  proof
    fix w assume "w \<in> set ((u, d, r) # vs)"
    then consider "w = (u, d, r)" | "w \<in> set vs" by auto
    then show "(fst w, fst (snd w)) \<in> set ((u, d) # rest)
        \<or> (\<exists>v \<in> set ((u, d, r) # vs). child_of U a options v w)"
    proof cases
      case 1
      then show ?thesis by simp
    next
      case 2
      with IH have "(fst w, fst (snd w)) \<in> set q' \<or> (\<exists>v \<in> set vs. child_of U a options v w)"
        by blast
      then show ?thesis
      proof
        assume "(fst w, fst (snd w)) \<in> set q'"
        from in_next_queue [OF this [unfolded q'_def]]
        show ?thesis by (auto simp: child_of_def)
      next
        assume "\<exists>v \<in> set vs. child_of U a options v w"
        then show ?thesis by auto
      qed
    qed
  qed
qed

lemma crawl_no_fault:
  "(\<forall>k. newPage env k = None) \<Longrightarrow> (\<forall>k. closePage env k = None) \<Longrightarrow>
   snd (crawl_loop U spell env options a visited queue n) = None"
proof (induction visited queue n
    rule: crawl_induct [where U = U and spell = spell and env = env and options = options and a = a])
  case (Nil visited n)
  show ?case by (simp add: crawl_loop_Nil)
next
  case (Full visited u d rest n)
  then show ?case by (simp add: crawl_loop_full)
next
  case (Skip visited u d rest n)
  then show ?case by (simp add: crawl_loop_skip)
next
  case (Fault visited u d rest n)
  then show ?case by auto
next
  case (Step visited u d rest n)
  then show ?case by (simp add: crawl_loop_step)
qed


lemma crawlSite_cases:
  "fst (crawlSite U spell env startUrl options) = []
   \<or> fst (crawlSite U spell env startUrl options)
       = fst (crawl_loop U spell env options (allowedDomain_of U startUrl) [] [(startUrl, 0)] 0)"
  by (simp add: crawlSite_def allowedDomain_of_def Let_def split: option.splits)

text \<open>
  For every crawl, completed or not: the number of reports yielded never exceeds
  \<open>maxPages\<close>, and no URL string is analyzed twice.
\<close>

lemma crawlSite_page_cap:
  "length (yielded (crawlSite U spell env startUrl options)) \<le> maxPages options"
  using crawlSite_cases [of U spell env startUrl options]
    crawl_cap [of U spell env options "allowedDomain_of U startUrl" "[]" "[(startUrl, 0)]" 0]
  by (auto simp: yielded_def)

lemma crawlSite_urls_distinct:
  "distinct (map fst (fst (crawlSite U spell env startUrl options)))"
  using crawlSite_cases [of U spell env startUrl options]
    crawl_fresh [of U spell env options "allowedDomain_of U startUrl" "[]" "[(startUrl, 0)]" 0]
  by auto

lemma crawlSite_parent:
  assumes "w \<in> set (fst (crawlSite U spell env startUrl options))"
  shows "(fst w, fst (snd w)) = (startUrl, 0)
     \<or> (\<exists>v \<in> set (fst (crawlSite U spell env startUrl options)).
          child_of U (allowedDomain_of U startUrl) options v w)"
proof -
  from crawlSite_cases [of U spell env startUrl options] assms
  have e: "fst (crawlSite U spell env startUrl options)
        = fst (crawl_loop U spell env options (allowedDomain_of U startUrl) []
                 [(startUrl, 0)] 0)"
    by auto
  from crawl_parent [of U spell env options "allowedDomain_of U startUrl" "[]"
      "[(startUrl, 0)]" 0] assms
  show ?thesis unfolding e by auto
qed

lemma crawlSite_depth:
  assumes "w \<in> set (fst (crawlSite U spell env startUrl options))"
  shows "fst (snd w) \<le> maxDepth options"
proof -
  from crawlSite_cases [of U spell env startUrl options] assms
  have e: "fst (crawlSite U spell env startUrl options)
        = fst (crawl_loop U spell env options (allowedDomain_of U startUrl) []
                 [(startUrl, 0)] 0)"
    by auto
  have "\<forall>p \<in> set [(startUrl, 0::nat)]. snd p \<le> maxDepth options" by simp
  from crawl_depth [OF this, of U spell env "allowedDomain_of U startUrl" "[]" 0] assms
  show ?thesis unfolding e by blast
qed

lemma crawlSite_link_path:
  assumes "w \<in> set (fst (crawlSite U spell env startUrl options))"
  shows "link_path U (allowedDomain_of U startUrl) options startUrl
           (fst (crawlSite U spell env startUrl options)) (fst w) (fst (snd w))"
  using assms
proof (induction "fst (snd w)" arbitrary: w)
  case 0
  from crawlSite_parent [OF "0.prems"] "0.hyps" have "fst w = startUrl"
    by (auto simp: child_of_def)
  then show ?case using "0.hyps" [symmetric] by (simp add: link_path.path_start)
next
  case (Suc d)
  from crawlSite_parent [OF Suc.prems] Suc.hyps(2)
  obtain v where v: "v \<in> set (fst (crawlSite U spell env startUrl options))"
    and c: "child_of U (allowedDomain_of U startUrl) options v w"
    by auto
  from c Suc.hyps(2) have d: "d = fst (snd v)" by (simp add: child_of_def)
  from Suc.hyps(1) [OF d v]
  have p: "link_path U (allowedDomain_of U startUrl) options startUrl
      (fst (crawlSite U spell env startUrl options)) (fst v) (fst (snd v))" .
  from c obtain link where l: "link \<in> set (links (snd (snd v)))"
    and r: "reaches U (allowedDomain_of U startUrl) (fst v) link (fst w)"
    and lt: "fst (snd v) < maxDepth options" and k: "fst (snd w) = Suc (fst (snd v))"
    by (auto simp: child_of_def list_ex_iff)
  from link_path.path_step [OF p v lt l r] show ?case by (simp add: k)
qed

lemma crawlSite_completes:
  assumes "launch env = None" and "closeBrowser env = None"
    and "\<forall>k. newPage env k = None" and "\<forall>k. closePage env k = None"
    and "U startUrl None \<noteq> None"
  shows "snd (crawlSite U spell env startUrl options) = None"
proof -
  from assms(5) obtain obj where o: "U startUrl None = Some obj" by blast
  have "snd (crawl_loop U spell env options (hostname obj) [] [(startUrl, 0)] 0) = None"
    using assms(3,4) by (rule crawl_no_fault)
  then show ?thesis using assms(1,2) o by (simp add: crawlSite_def Let_def)
qed

text \<open>
  Every URL that enters the queue from a link is stripped of its fragment. So when the
  start URL has no fragment, no two analyzed URLs agree after stripping the fragment.
\<close>

lemma reaches_no_hash: "reaches U a base link target \<Longrightarrow> CHR ''#'' \<notin> set target"
  using strip_fragment_no_hash by (auto simp: reaches_def split: option.splits)

lemma crawlSite_normalized_distinct:
  assumes "CHR ''#'' \<notin> set startUrl"
  shows "distinct (map (\<lambda>w. strip_fragment (fst w)) (fst (crawlSite U spell env startUrl options)))"
proof -
  have "strip_fragment (fst w) = fst w"
    if "w \<in> set (fst (crawlSite U spell env startUrl options))" for w
  proof -
    from crawlSite_parent [OF that] have "CHR ''#'' \<notin> set (fst w)"
    proof
      assume "(fst w, fst (snd w)) = (startUrl, 0)"
      then show ?thesis using assms by simp
    next
      assume "\<exists>v \<in> set (fst (crawlSite U spell env startUrl options)).
          child_of U (allowedDomain_of U startUrl) options v w"
      then obtain v link where "reaches U (allowedDomain_of U startUrl) (fst v) link (fst w)"
        by (auto simp: child_of_def list_ex_iff)
      then show ?thesis by (rule reaches_no_hash)
    qed
    then show ?thesis by (rule strip_fragment_id)
  qed
  then have "map (\<lambda>w. strip_fragment (fst w)) (fst (crawlSite U spell env startUrl options))
      = map fst (fst (crawlSite U spell env startUrl options))"
    by (intro map_cong) simp_all
  then show ?thesis
    using crawlSite_urls_distinct [of U spell env startUrl options] by (simp only:)
qed

text \<open>
  The same for the reports the generator yields: each carries the URL it was dequeued
  with, so no two reports of a crawl have the same URL, and no two agree after stripping
  the fragment when the start URL has none.
\<close>

lemma crawl_visit_urls:
  "\<forall>w \<in> set (fst (crawl_loop U spell env options a visited queue n)). url (snd (snd w)) = fst w"
proof (induction visited queue n
    rule: crawl_induct [where U = U and spell = spell and env = env and options = options and a = a])
  case (Nil visited n)
  show ?case by (simp add: crawl_loop_Nil)
next
  case (Full visited u d rest n)
  then show ?case by (simp add: crawl_loop_full)
next
  case (Skip visited u d rest n)
  then show ?case by (simp add: crawl_loop_skip)
next
  case (Fault visited u d rest n)
  then show ?case
    by (cases "newPage env n")
       (auto simp: crawl_loop_newPage_fails crawl_loop_closePage_fails)
next
  case (Step visited u d rest n)
  then show ?case by (simp add: crawl_loop_step analyzePage_url)
qed

lemma yielded_urls:
  "map url (yielded (crawlSite U spell env startUrl options))
     = map fst (fst (crawlSite U spell env startUrl options))"
proof -
  have "\<forall>w \<in> set (fst (crawlSite U spell env startUrl options)). url (snd (snd w)) = fst w"
    using crawlSite_cases [of U spell env startUrl options]
      crawl_visit_urls [of U spell env options "allowedDomain_of U startUrl" "[]"
        "[(startUrl, 0)]" 0]
    by auto
  then show ?thesis by (simp add: yielded_def)
qed

lemma crawlSite_reports_distinct:
  "distinct (map url (yielded (crawlSite U spell env startUrl options)))"
  unfolding yielded_urls by (rule crawlSite_urls_distinct)

lemma crawlSite_reports_normalized_distinct:
  assumes "CHR ''#'' \<notin> set startUrl"
  shows "distinct (map (\<lambda>r. strip_fragment (url r))
           (yielded (crawlSite U spell env startUrl options)))"
proof -
  have "map (\<lambda>r. strip_fragment (url r)) (yielded (crawlSite U spell env startUrl options))
      = map strip_fragment (map url (yielded (crawlSite U spell env startUrl options)))"
    by simp
  also have "\<dots> = map (\<lambda>w. strip_fragment (fst w)) (fst (crawlSite U spell env startUrl options))"
    unfolding yielded_urls by simp
  finally show ?thesis using crawlSite_normalized_distinct [OF assms] by (simp only:)
qed

text \<open>
  C1. The start URL enters the queue as it is given (line 525), while the URLs found in
  links are stripped of their fragment (line 573). Started at \<open>https://example.com/#top\<close>
  on a site whose page links to its own top and to its home, the crawl yields a report
  for the URL \<open>https://example.com/#top\<close> and one more for \<open>https://example.com/\<close>:
  two analyses of one fragment-stripped URL.
\<close>

theorem fragment_start_url_analyzed_twice:
  "map url (yielded (crawlSite example_URL None fragment_site ''https://example.com/#top''
                       \<lparr> maxPages = 20, maxDepth = 2 \<rparr>))
     = [''https://example.com/#top'', ''https://example.com/'']
   \<and> map (\<lambda>r. strip_fragment (url r))
         (yielded (crawlSite example_URL None fragment_site ''https://example.com/#top''
                     \<lparr> maxPages = 20, maxDepth = 2 \<rparr>))
     = [''https://example.com/'', ''https://example.com/'']"
proof -
  have "map fst (fst (crawlSite example_URL None fragment_site ''https://example.com/#top''
            \<lparr> maxPages = 20, maxDepth = 2 \<rparr>))
      = map fst [(''https://example.com/#top'', 0::nat), (''https://example.com/'', 1)]"
    unfolding fragment_crawl [symmetric] by simp
  then have u: "map url (yielded (crawlSite example_URL None fragment_site
        ''https://example.com/#top'' \<lparr> maxPages = 20, maxDepth = 2 \<rparr>))
      = [''https://example.com/#top'', ''https://example.com/'']"
    by (simp add: yielded_urls)
  have "map (\<lambda>r. strip_fragment (url r))
         (yielded (crawlSite example_URL None fragment_site ''https://example.com/#top''
                     \<lparr> maxPages = 20, maxDepth = 2 \<rparr>))
      = map strip_fragment (map url (yielded (crawlSite example_URL None fragment_site
          ''https://example.com/#top'' \<lparr> maxPages = 20, maxDepth = 2 \<rparr>)))"
    by simp
  also have "\<dots> = [''https://example.com/'', ''https://example.com/'']"
    unfolding u by (simp add: strip_fragment_def)
  finally show ?thesis using u by simp
qed

lemma next_queue_admitted:
  assumes "(c, k) \<in> set (next_queue U options a visited u d r rest)"
  shows "(c, k) \<in> set rest
     \<or> (\<exists>link \<in> set (links r). admit U a (u # visited) u link = Some c)"
proof -
  from in_next_queue [OF assms] show ?thesis
  proof
    assume "(c, k) \<in> set rest" then show ?thesis ..
  next
    assume "d < maxDepth options \<and> k = Suc d \<and> c \<notin> set (u # visited)
        \<and> list_ex (\<lambda>link. reaches U a u link c) (links r)"
    then obtain link where "link \<in> set (links r)" and "reaches U a u link c"
      and "c \<notin> set (u # visited)"
      by (auto simp: list_ex_iff)
    then have "\<exists>link \<in> set (links r). admit U a (u # visited) u link = Some c"
      using admit_iff [of U a "u # visited" u _ c] by blast
    then show ?thesis ..
  qed
qed

lemma admit_only_if:
  assumes "admit U a visited u link = Some c"
  shows "\<exists>resolved urlObj. U link (Some u) = Some resolved
      \<and> U (href resolved) None = Some urlObj
      \<and> hostname urlObj = a
      \<and> (protocol urlObj = ''http:'' \<or> protocol urlObj = ''https:'')
      \<and> c = strip_fragment (href resolved) \<and> c \<notin> set visited"
  using assms by (auto simp: admit_def Let_def split: option.splits if_splits)

lemma malformed_link_dropped:
  assumes "U link (Some u) = None"
  shows "admit U a visited u link = None
     \<and> enqueue_links U a visited u d (link # ls) q = enqueue_links U a visited u d ls q"
  using assms by (simp add: admit_def enqueue_links_def)

text \<open>
  C4. A link enters the queue only if, resolved against the URL of the page it was found
  on, it parses, its host name equals the start URL's host name, its scheme is http or
  https, and the resolved URL without its fragment is not in the visited set; what enters
  the queue is that URL without its fragment, and nothing else enters the queue. A link
  that does not parse is dropped and the loop over the links goes on. Every analyzed URL
  other than the start URL is the target of such a link on an analyzed page, so a link to
  another host never produces a report. A crawl in which the browser does not fail ends
  without an exception, whatever the links are.
\<close>

theorem link_admission:
  "(admit U a visited u link = Some c \<longrightarrow>
      (\<exists>resolved urlObj. U link (Some u) = Some resolved
         \<and> U (href resolved) None = Some urlObj
         \<and> hostname urlObj = a
         \<and> (protocol urlObj = ''http:'' \<or> protocol urlObj = ''https:'')
         \<and> c = strip_fragment (href resolved) \<and> c \<notin> set visited))
   \<and> ((c, k) \<in> set (next_queue U options a visited u d r rest) \<longrightarrow>
        (c, k) \<in> set rest
        \<or> (\<exists>link \<in> set (links r). admit U a (u # visited) u link = Some c))
   \<and> (U link (Some u) = None \<longrightarrow>
        admit U a visited u link = None
        \<and> enqueue_links U a visited u d (link # ls) q = enqueue_links U a visited u d ls q)
   \<and> (\<forall>w \<in> set (fst (crawlSite U spell env startUrl options)).
        fst w = startUrl
        \<or> (\<exists>v \<in> set (fst (crawlSite U spell env startUrl options)).
              \<exists>link \<in> set (links (snd (snd v))).
                reaches U (allowedDomain_of U startUrl) (fst v) link (fst w)))
   \<and> (launch env = None \<and> closeBrowser env = None \<and> (\<forall>k. newPage env k = None)
        \<and> (\<forall>k. closePage env k = None) \<and> U startUrl None \<noteq> None \<longrightarrow>
        snd (crawlSite U spell env startUrl options) = None)"
proof -
  have 4: "fst w = startUrl
        \<or> (\<exists>v \<in> set (fst (crawlSite U spell env startUrl options)).
              \<exists>link \<in> set (links (snd (snd v))).
                reaches U (allowedDomain_of U startUrl) (fst v) link (fst w))"
    if "w \<in> set (fst (crawlSite U spell env startUrl options))" for w
    using crawlSite_parent [OF that] by (auto simp: child_of_def list_ex_iff)
  show ?thesis
    using admit_only_if [of U a visited u link c]
      next_queue_admitted [of c k U options a visited u d r rest]
      malformed_link_dropped [of U link u a visited d ls q]
      crawlSite_completes [of env U startUrl spell options] 4
    by blast
qed

lemma small_site_faultless:
  "launch small_site = None \<and> closeBrowser small_site = None
   \<and> (\<forall>k. newPage small_site k = None) \<and> (\<forall>k. closePage small_site k = None)"
  by (simp add: small_site_def example_browser_def)

text \<open>
  The site whose home links to its own page \<open>about#team\<close>, to another host, to a
  subdomain, to a mail address and to the malformed \<open>http://[bad\<close>: only the first is
  admitted, without its fragment, and the crawl analyzes the home and that page.
\<close>

theorem link_admission_witness:
  "admit example_URL ''example.com'' [''https://example.com/''] ''https://example.com/''
       ''https://example.com/about#team'' = Some ''https://example.com/about''
   \<and> admit example_URL ''example.com'' [''https://example.com/''] ''https://example.com/''
       ''https://other.org/'' = None
   \<and> admit example_URL ''example.com'' [''https://example.com/''] ''https://example.com/''
       ''https://sub.example.com/'' = None
   \<and> admit example_URL ''example.com'' [''https://example.com/''] ''https://example.com/''
       ''mailto:hi@example.com'' = None
   \<and> example_URL ''http://[bad'' (Some ''https://example.com/'') = None
   \<and> admit example_URL ''example.com'' [''https://example.com/''] ''https://example.com/''
       ''http://[bad'' = None
   \<and> map (\<lambda>w. (fst w, fst (snd w)))
        (fst (crawlSite example_URL None small_site ''https://example.com/''
               \<lparr> maxPages = 20, maxDepth = 1 \<rparr>))
       = [(''https://example.com/'', 0), (''https://example.com/about'', 1)]
   \<and> snd (crawlSite example_URL None small_site ''https://example.com/''
             \<lparr> maxPages = 20, maxDepth = 1 \<rparr>) = None"
proof -
  have bad: "example_URL ''http://[bad'' (Some ''https://example.com/'') = None"
    by (simp add: example_URL_def)
  have start: "example_URL ''https://example.com/'' None \<noteq> None"
    by (simp add: example_URL_def)
  have adm: "admit example_URL ''example.com'' [''https://example.com/''] ''https://example.com/''
       ''https://example.com/about#team'' = Some ''https://example.com/about''"
     "admit example_URL ''example.com'' [''https://example.com/''] ''https://example.com/''
       ''https://other.org/'' = None"
     "admit example_URL ''example.com'' [''https://example.com/''] ''https://example.com/''
       ''https://sub.example.com/'' = None"
     "admit example_URL ''example.com'' [''https://example.com/''] ''https://example.com/''
       ''mailto:hi@example.com'' = None"
    by (simp_all add: admit_def example_URL_def strip_fragment_def Let_def)
  note L = link_admission [where U = example_URL and a = "''example.com''"
      and visited = "[''https://example.com/'']" and u = "''https://example.com/''"
      and link = "''http://[bad''" and spell = None and env = small_site
      and startUrl = "''https://example.com/''"
      and options = "\<lparr> maxPages = 20, maxDepth = 1 \<rparr>"]
  have pre: "launch small_site = None \<and> closeBrowser small_site = None
      \<and> (\<forall>k. newPage small_site k = None) \<and> (\<forall>k. closePage small_site k = None)
      \<and> example_URL ''https://example.com/'' None \<noteq> None"
    using small_site_faultless start by simp
  have "admit example_URL ''example.com'' [''https://example.com/''] ''https://example.com/''
       ''http://[bad'' = None"
    using L [THEN conjunct2, THEN conjunct2, THEN conjunct1, THEN mp, OF bad] by (rule conjunct1)
  moreover have "snd (crawlSite example_URL None small_site ''https://example.com/''
             \<lparr> maxPages = 20, maxDepth = 1 \<rparr>) = None"
    using L [THEN conjunct2, THEN conjunct2, THEN conjunct2, THEN conjunct2, THEN mp, OF pre] .
  ultimately have "admit example_URL ''example.com'' [''https://example.com/'']
       ''https://example.com/'' ''http://[bad'' = None
     \<and> snd (crawlSite example_URL None small_site ''https://example.com/''
             \<lparr> maxPages = 20, maxDepth = 1 \<rparr>) = None" by (rule conjI)
  then show ?thesis using bad adm small_crawl by simp
qed

text \<open>
  C5. Links are enqueued only from a page dequeued at a depth below \<open>maxDepth\<close>, one
  level deeper than that page. Hence every analyzed page was dequeued at a depth of at
  most \<open>maxDepth\<close>, and a path of that many links leads to it from the start URL through
  analyzed pages: no page that only longer paths reach is analyzed.
\<close>

theorem depth_bound:
  "(\<forall>w \<in> set (fst (crawlSite U spell env startUrl options)).
      fst (snd w) \<le> maxDepth options
      \<and> link_path U (allowedDomain_of U startUrl) options startUrl
          (fst (crawlSite U spell env startUrl options)) (fst w) (fst (snd w)))
   \<and> ((c, k) \<in> set (next_queue U options a visited u d r rest) \<longrightarrow>
        (c, k) \<in> set rest \<or> (d < maxDepth options \<and> k = d + 1))
   \<and> (\<not> d < maxDepth options \<longrightarrow> next_queue U options a visited u d r rest = rest)"
proof -
  have "(c, k) \<in> set rest \<or> (d < maxDepth options \<and> k = d + 1)"
    if "(c, k) \<in> set (next_queue U options a visited u d r rest)"
    using in_next_queue [OF that] by auto
  then show ?thesis
    using crawlSite_depth [of _ U spell env startUrl options]
      crawlSite_link_path [of _ U spell env startUrl options]
    by (auto simp: next_queue_def)
qed

text \<open>
  The same site with \<open>maxDepth = 1\<close>: the page \<open>about\<close>, dequeued at depth 1, links to
  \<open>team\<close>, which is not enqueued; the home and \<open>about\<close> are the analyzed pages.
\<close>

theorem depth_bound_witness:
  "map (\<lambda>w. (fst w, fst (snd w)))
        (fst (crawlSite example_URL None small_site ''https://example.com/''
               \<lparr> maxPages = 20, maxDepth = 1 \<rparr>))
       = [(''https://example.com/'', 0), (''https://example.com/about'', 1)]
   \<and> list_all (\<lambda>w. fst (snd w) \<le> 1)
        (fst (crawlSite example_URL None small_site ''https://example.com/''
               \<lparr> maxPages = 20, maxDepth = 1 \<rparr>))
   \<and> links (analyzePage None (page_of small_site 1 ''https://example.com/about'')
              ''https://example.com/about'')
       = [''https://example.com/team'', ''https://example.com/'']
   \<and> next_queue example_URL \<lparr> maxPages = 20, maxDepth = 1 \<rparr> ''example.com''
        [''https://example.com/''] ''https://example.com/about'' 1
        (analyzePage None (page_of small_site 1 ''https://example.com/about'')
           ''https://example.com/about'') [] = []"
proof -
  have l: "links (analyzePage None (page_of small_site 1 ''https://example.com/about'')
              ''https://example.com/about'')
       = [''https://example.com/team'', ''https://example.com/'']"
    by (simp add: small_site_def example_browser_def example_page_links example_static_def)
  from depth_bound [where U = example_URL and spell = None and env = small_site
      and startUrl = "''https://example.com/''"
      and options = "\<lparr> maxPages = 20, maxDepth = 1 \<rparr>" and a = "''example.com''"
      and visited = "[''https://example.com/'']" and u = "''https://example.com/about''"
      and d = 1
      and r = "analyzePage None (page_of small_site 1 ''https://example.com/about'')
         ''https://example.com/about''" and rest = "[]"]
  have "list_all (\<lambda>w. fst (snd w) \<le> 1)
        (fst (crawlSite example_URL None small_site ''https://example.com/''
               \<lparr> maxPages = 20, maxDepth = 1 \<rparr>))"
    and "next_queue example_URL \<lparr> maxPages = 20, maxDepth = 1 \<rparr> ''example.com''
        [''https://example.com/''] ''https://example.com/about'' 1
        (analyzePage None (page_of small_site 1 ''https://example.com/about'')
           ''https://example.com/about'') [] = []"
    by (simp_all add: list_all_iff)
  then show ?thesis using small_crawl l by simp
qed

end
